theory Spec2Isabelle
  imports Main "HOL-Library.AList" "HOL-Library.Multiset" "HOL-Library.Char_ord"
    "HOL-Library.List_Lexorder"
begin

section \<open>The dependency analyzer of \<^verbatim>\<open>sql_converter/dependency_analyzer.py\<close>\<close>

text \<open>
  Table names are Python strings, modelled as \<^typ>\<open>string\<close>. A Python \<^verbatim>\<open>dict\<close> keeps its
  keys in insertion order and the sorter depends on that order, so a dict is an association
  list; a well-formed dict has distinct keys. A Python \<^verbatim>\<open>set\<close> is a HOL set. A dict lookup of
  a missing key raises \<^verbatim>\<open>KeyError\<close>, which the model returns as a value.
\<close>

datatype error = KeyError string | AttributeError

type_synonym graph = "(string \<times> string set) list"
type_synonym counts = "(string \<times> int) list"

fun for_each :: "('a \<Rightarrow> 's \<Rightarrow> error + 's) \<Rightarrow> 'a list \<Rightarrow> 's \<Rightarrow> error + 's" where
  "for_each body [] s = Inr s"
| "for_each body (x # xs) s = (case body x s of Inl e \<Rightarrow> Inl e | Inr s' \<Rightarrow> for_each body xs s')"

subsection \<open>\<^verbatim>\<open>_topological_sort\<close>\<close>

text \<open>\<^verbatim>\<open>in_degree = {node: 0 for node in graph}\<close>\<close>

definition zero_degrees :: "graph \<Rightarrow> counts" where
  "zero_degrees graph = map (\<lambda>(node, deps). (node, 0)) graph"

text \<open>
  \<^verbatim>\<open>for dependent in graph[node]: if dependent in in_degree: in_degree[dependent] += 1\<close>.
  The loop runs once over each element of a set and its body only touches the counter of that
  element, so it is the pointwise update of the counters of the members of the set.
\<close>

definition count_dependents :: "string set \<Rightarrow> counts \<Rightarrow> counts" where
  "count_dependents deps in_degree =
     map (\<lambda>(dependent, c). if dependent \<in> deps then (dependent, c + 1) else (dependent, c)) in_degree"

definition count_in_degree :: "graph \<Rightarrow> counts" where
  "count_in_degree graph = fold (\<lambda>(node, deps). count_dependents deps) graph (zero_degrees graph)"

record sort_state =
  cur_graph :: graph
  in_degree :: counts
  queue :: "string list"
  result :: "string list"

text \<open>
  The body of \<^verbatim>\<open>for dependent in list(graph.keys())\<close>: when \<^verbatim>\<open>node\<close> is in
  \<^verbatim>\<open>graph[dependent]\<close> it is removed there, the counter of \<^verbatim>\<open>dependent\<close> goes down by one and
  \<^verbatim>\<open>dependent\<close> joins the queue when its counter reaches zero.
\<close>

definition remove_edge :: "string \<Rightarrow> string \<Rightarrow> sort_state \<Rightarrow> error + sort_state" where
  "remove_edge node dependent st =
     (case map_of (cur_graph st) dependent of
        None \<Rightarrow> Inl (KeyError dependent)
      | Some deps \<Rightarrow>
          if node \<in> deps then
            (case map_of (in_degree st) dependent of
               None \<Rightarrow> Inl (KeyError dependent)
             | Some c \<Rightarrow>
                 Inr (st\<lparr>cur_graph := AList.update dependent (deps - {node}) (cur_graph st),
                         in_degree := AList.update dependent (c - 1) (in_degree st),
                         queue := (if c - 1 = 0 then queue st @ [dependent] else queue st)\<rparr>))
          else Inr st)"

text \<open>
  \<^verbatim>\<open>while queue:\<close> pops the head of the queue, appends it to the result and runs the inner
  loop over a snapshot of the keys. Nothing in the loop bounds the number of rounds, so the
  loop is a partial function: \<^term>\<open>None\<close> stands for a run that never leaves it.
\<close>

partial_function (option) process_queue :: "sort_state \<Rightarrow> (error + sort_state) option" where
  "process_queue st =
     (case queue st of
        [] \<Rightarrow> Some (Inr st)
      | node # rest \<Rightarrow>
          (case for_each (remove_edge node) (map fst (cur_graph st))
                  (st\<lparr>queue := rest, result := result st @ [node]\<rparr>) of
             Inl e \<Rightarrow> Some (Inl e)
           | Inr st' \<Rightarrow> process_queue st'))"

text \<open>\<^verbatim>\<open>', '.join(cycles)\<close>\<close>

fun join :: "string \<Rightarrow> string list \<Rightarrow> string" where
  "join sep [] = []"
| "join sep [x] = x"
| "join sep (x # y # ys) = x @ sep @ join sep (y # ys)"

text \<open>
  The sorter returns the order; the two \<^verbatim>\<open>logger.warning\<close> calls of its cycle branch are
  returned beside it as the list of the messages logged.
\<close>

definition initial_state :: "graph \<Rightarrow> sort_state" where
  "initial_state graph =
     (let in_degree0 = count_in_degree graph
      in \<lparr>cur_graph = graph, in_degree = in_degree0,
          queue = [node \<leftarrow> map fst in_degree0. map_of in_degree0 node = Some 0],
          result = []\<rparr>)"

definition topological_sort :: "graph \<Rightarrow> (error + string list \<times> string list) option" where
  "topological_sort graph =
     (case process_queue (initial_state graph) of
        None \<Rightarrow> None
      | Some (Inl e) \<Rightarrow> Some (Inl e)
      | Some (Inr st) \<Rightarrow>
          if length (result st) \<noteq> length (cur_graph st) then
            (let cycles = [node \<leftarrow> map fst (cur_graph st). node \<notin> set (result st)]
             in Some (Inr (result st @ cycles,
                  [''Circular dependencies detected in SQL queries'',
                   ''Tables in cycles: '' @ join '', '' cycles])))
          else Some (Inr (result st, [])))"

subsection \<open>Text helpers\<close>

text \<open>
  Characters are the 8-bit characters of \<^typ>\<open>char\<close>. \<^verbatim>\<open>str.strip()\<close> removes the leading and
  trailing characters that Python counts as whitespace: below code point 256 these are
  9 to 13, 28 to 32, 133 and 160.
\<close>

definition is_space :: "char \<Rightarrow> bool" where
  "is_space c = (of_char c \<in> {9, 10, 11, 12, 13, 28, 29, 30, 31, 32, 133, 160 :: nat})"

definition strip :: "string \<Rightarrow> string" where
  "strip s = rev (dropWhile is_space (rev (dropWhile is_space s)))"

text \<open>
  \<^verbatim>\<open>re.sub(r'--.*?$', '', sql_batch, flags=re.MULTILINE)\<close>: a dot matches every character but
  the newline and \<^verbatim>\<open>$\<close> matches before a newline and at the end, so each match runs from
  \<^verbatim>\<open>--\<close> up to the next newline, which stays.
\<close>

function line_comments :: "string \<Rightarrow> string" where
  "line_comments (c1 # c2 # cs) =
     (if c1 = CHR ''-'' \<and> c2 = CHR ''-'' then line_comments (dropWhile (\<lambda>c. c \<noteq> CHR 0x0A) cs)
      else c1 # line_comments (c2 # cs))"
| "line_comments [c] = [c]"
| "line_comments [] = []"
  by pat_completeness auto
termination
  by (relation "measure length")
     (auto simp: le_imp_less_Suc length_dropWhile_le less_Suc_eq_le intro: le_SucI)

text \<open>
  \<^verbatim>\<open>re.sub(r'/\*.*?\*/', '', sql_batch, flags=re.DOTALL)\<close>: each match runs from \<^verbatim>\<open>/*\<close> to
  the first \<^verbatim>\<open>*/\<close> that starts after it; an opener with no closer stays in the text.
\<close>

fun after_close :: "string \<Rightarrow> string option" where
  "after_close (c1 # c2 # cs) =
     (if c1 = CHR ''*'' \<and> c2 = CHR ''/'' then Some cs else after_close (c2 # cs))"
| "after_close cs = None"

lemma after_close_shorter: "after_close cs = Some rest \<Longrightarrow> length rest < length cs"
  by (induction cs rule: after_close.induct) (auto split: if_splits)

function block_comments :: "string \<Rightarrow> string" where
  "block_comments (c1 # c2 # cs) =
     (if c1 = CHR ''/'' \<and> c2 = CHR ''*'' then
        (case after_close cs of
           Some rest \<Rightarrow> block_comments rest
         | None \<Rightarrow> c1 # block_comments (c2 # cs))
      else c1 # block_comments (c2 # cs))"
| "block_comments [c] = [c]"
| "block_comments [] = []"
  by pat_completeness auto
termination
  by (relation "measure length") (auto dest: after_close_shorter)

subsection \<open>\<^verbatim>\<open>_split_with_regex\<close>\<close>

text \<open>The local variables of the scan loop.\<close>

record scan =
  queries :: "string list"
  current_query :: string
  in_quotes :: bool
  quote_char :: "char option"
  paren_level :: int

text \<open>\<^verbatim>\<open>if current_query.strip(): queries.append(current_query.strip())\<close>\<close>

definition flush :: "scan \<Rightarrow> string list" where
  "flush s = (if strip (current_query s) \<noteq> [] then queries s @ [strip (current_query s)] else queries s)"

text \<open>The body of \<^verbatim>\<open>for char in sql_batch\<close>, with its \<^verbatim>\<open>if\<close>/\<^verbatim>\<open>elif\<close> chain in the source's order.\<close>

definition scan_char :: "char \<Rightarrow> scan \<Rightarrow> scan" where
  "scan_char char s0 =
     (let s = s0\<lparr>current_query := current_query s0 @ [char]\<rparr> in
      if char = CHR 0x27 \<or> char = CHR 0x22 then
        (if \<not> in_quotes s then s\<lparr>in_quotes := True, quote_char := Some char\<rparr>
         else if Some char = quote_char s then s\<lparr>in_quotes := False, quote_char := None\<rparr>
         else s)
      else if char = CHR ''('' \<and> \<not> in_quotes s then s\<lparr>paren_level := paren_level s + 1\<rparr>
      else if char = CHR '')'' \<and> \<not> in_quotes s then s\<lparr>paren_level := max 0 (paren_level s - 1)\<rparr>
      else if char = CHR '';'' \<and> \<not> in_quotes s \<and> paren_level s = 0 then
        s\<lparr>queries := flush s, current_query := []\<rparr>
      else s)"

definition scan_start :: scan where
  "scan_start =
     \<lparr>queries = [], current_query = [], in_quotes = False, quote_char = None, paren_level = 0\<rparr>"

definition scan_text :: "string \<Rightarrow> scan" where
  "scan_text text = fold scan_char text scan_start"

definition split_with_regex :: "string \<Rightarrow> string list" where
  "split_with_regex sql_batch = flush (scan_text (block_comments (line_comments sql_batch)))"

subsection \<open>\<^verbatim>\<open>_is_valid_query_boundary\<close> and \<^verbatim>\<open>_stream_split_queries\<close>\<close>

text \<open>\<^verbatim>\<open>i+1 < len(query) and query[i+1] == c\<close>, with \<open>rest\<close> the text after position \<open>i\<close>.\<close>

definition next_is :: "char \<Rightarrow> string \<Rightarrow> bool" where
  "next_is c rest = (case rest of [] \<Rightarrow> False | x # xs \<Rightarrow> x = c)"

text \<open>
  The loop of \<^verbatim>\<open>_is_valid_query_boundary\<close> over the characters of the query, its four local
  variables passed along; it returns the quote count and the parenthesis level.
\<close>

fun boundary_scan :: "int \<Rightarrow> int \<Rightarrow> bool \<Rightarrow> bool \<Rightarrow> string \<Rightarrow> int \<times> int" where
  "boundary_scan quote_count level in_comment in_block_comment [] = (quote_count, level)"
| "boundary_scan quote_count level in_comment in_block_comment (char # rest) =
     (if in_comment then
        boundary_scan quote_count level (char \<noteq> CHR 0x0A) in_block_comment rest
      else if in_block_comment then
        boundary_scan quote_count level in_comment
          (\<not> (char = CHR ''*'' \<and> next_is CHR ''/'' rest)) rest
      else if char = CHR ''-'' \<and> next_is CHR ''-'' rest then
        boundary_scan quote_count level True in_block_comment rest
      else if char = CHR ''/'' \<and> next_is CHR ''*'' rest then
        boundary_scan quote_count level in_comment True rest
      else if char = CHR 0x27 \<or> char = CHR 0x22 then
        boundary_scan (quote_count + 1) level in_comment in_block_comment rest
      else if char = CHR ''('' then
        boundary_scan quote_count (level + 1) in_comment in_block_comment rest
      else if char = CHR '')'' then
        boundary_scan quote_count (max 0 (level - 1)) in_comment in_block_comment rest
      else boundary_scan quote_count level in_comment in_block_comment rest)"

definition is_valid_query_boundary :: "string \<Rightarrow> bool" where
  "is_valid_query_boundary query =
     (case boundary_scan 0 0 False False query of
        (quote_count, level) \<Rightarrow> quote_count mod 2 = 0 \<and> level = 0)"

text \<open>\<^verbatim>\<open>buffer.find(c)\<close>, with \<^term>\<open>None\<close> for Python's \<open>-1\<close>.\<close>

definition find_char :: "char \<Rightarrow> string \<Rightarrow> nat option" where
  "find_char c s = (if c \<in> set s then Some (length (takeWhile (\<lambda>x. x \<noteq> c) s)) else None)"

text \<open>\<^verbatim>\<open>[sql_batch[i:i+chunk_size] for i in range(0, len(sql_batch), chunk_size)]\<close>\<close>

function chunks_of :: "nat \<Rightarrow> string \<Rightarrow> string list" where
  "chunks_of chunk_size s =
     (if s = [] \<or> chunk_size = 0 then []
      else take chunk_size s # chunks_of chunk_size (drop chunk_size s))"
  by pat_completeness auto
termination
  by (relation "measure (\<lambda>(n, s). length s)") auto

declare chunks_of.simps [simp del]

text \<open>
  The \<^verbatim>\<open>while True\<close> loop over one buffer: the text up to the next semicolon is cut off the
  buffer, and joins the statements found when the boundary test accepts it and it is not blank.
  A piece that the test rejects is not put back.
\<close>

function take_queries :: "string \<Rightarrow> string list \<Rightarrow> string \<times> string list" where
  "take_queries buffer found =
     (case find_char CHR '';'' buffer of
        None \<Rightarrow> (buffer, found)
      | Some semicolon_pos \<Rightarrow>
          (let query = take (semicolon_pos + 1) buffer
           in take_queries (drop (semicolon_pos + 1) buffer)
                (if is_valid_query_boundary query \<and> strip query \<noteq> [] then found @ [strip query]
                 else found)))"
  by pat_completeness auto
termination
  by (relation "measure (\<lambda>(buffer, found). length buffer)")
     (auto simp: find_char_def length_pos_if_in_set split: if_splits intro!: diff_less)

declare take_queries.simps [simp del]

definition stream_split_chunks :: "string list \<Rightarrow> string list" where
  "stream_split_chunks chunks =
     (case fold (\<lambda>chunk (buffer, found). take_queries (buffer @ chunk) found) chunks ([], []) of
        (buffer, found) \<Rightarrow> if strip buffer \<noteq> [] then found @ [strip buffer] else found)"

definition stream_split_queries :: "string \<Rightarrow> string list" where
  "stream_split_queries sql_batch = stream_split_chunks (chunks_of 10000 sql_batch)"

subsection \<open>The parser\<close>

text \<open>
  The analyzer parses with the library sqlglot, which is not part of the repository. The
  model takes the parser as a parameter and a parsed expression as the data that the analyzer
  reads from it:

  \<^item> whether it is a \<^verbatim>\<open>Create\<close>;
  \<^item> its \<^verbatim>\<open>this\<close>, when that is truthy and has a \<^verbatim>\<open>name\<close> attribute;
  \<^item> for each node of \<^verbatim>\<open>find_all(CTE)\<close>, the name of its alias, when the node has an
    \<^verbatim>\<open>alias\<close> and that alias has a \<^verbatim>\<open>name\<close> attribute (the guard of the source), and
    \<^term>\<open>None\<close> otherwise. In sqlglot the \<^verbatim>\<open>alias\<close> of an expression is a plain string, which
    has no \<^verbatim>\<open>name\<close> attribute: the parses of the library have \<^term>\<open>None\<close> for every CTE;
  \<^item> for each node of \<^verbatim>\<open>find_all(Table)\<close>, the node when it has a \<^verbatim>\<open>name\<close> attribute.

  A table node has a name and a database name, the latter empty when absent.
  \<^verbatim>\<open>sqlglot.parse\<close> returns a list of optional expressions (an empty statement gives
  \<^verbatim>\<open>None\<close>) or raises; a parser is a function to an optional list, \<^term>\<open>None\<close> when it raises.
\<close>

record table_node =
  table_db :: string
  table_name :: string

record expression =
  is_create :: bool
  this_node :: "table_node option"
  ctes :: "string option list"
  tables :: "table_node option list"

type_synonym parser = "string \<Rightarrow> expression option list option"

text \<open>\<^verbatim>\<open>str.lower()\<close> on the characters below code point 256.\<close>

definition lower_char :: "char \<Rightarrow> char" where
  "lower_char c =
     (let n = of_char c :: nat
      in if (65 \<le> n \<and> n \<le> 90) \<or> (192 \<le> n \<and> n \<le> 222 \<and> n \<noteq> 215) then char_of (n + 32) else c)"

definition lower :: "string \<Rightarrow> string" where
  "lower s = map lower_char s"

subsection \<open>\<^verbatim>\<open>_get_table_references\<close> and \<^verbatim>\<open>_extract_tables_from_query\<close>\<close>

text \<open>The name under which a table node is recorded, qualified when it has a database name.\<close>

definition qualified_name :: "table_node \<Rightarrow> string" where
  "qualified_name t =
     (if table_db t \<noteq> [] then lower (table_db t) @ ''.'' @ lower (table_name t)
      else lower (table_name t))"

definition get_table_references :: "expression \<Rightarrow> string set" where
  "get_table_references e = set (List.map_filter (map_option qualified_name) (tables e))"

text \<open>The three sets that the extractor fills.\<close>

record extraction =
  created_tables :: "string set"
  referenced_tables :: "string set"
  cte_tables :: "string set"

text \<open>\<^verbatim>\<open>{t.lower() for t in tables if t.lower() not in cte_tables}\<close>\<close>

definition kept_tables :: "string set \<Rightarrow> string set \<Rightarrow> string set" where
  "kept_tables ctes' found = {lower t |t. t \<in> found \<and> lower t \<notin> ctes'}"

text \<open>The body of \<^verbatim>\<open>for expression in expressions\<close> for an expression that is present.\<close>

definition visit_expression :: "expression \<Rightarrow> extraction \<Rightarrow> extraction" where
  "visit_expression e st =
     (let ctes' = cte_tables st \<union> set (List.map_filter (map_option lower) (ctes e));
          created' =
            (if is_create e then
               (case this_node e of
                  Some t \<Rightarrow> insert (qualified_name t) (created_tables st)
                | None \<Rightarrow> created_tables st)
             else created_tables st);
          kept = kept_tables ctes' (get_table_references e)
      in \<lparr>created_tables = created', referenced_tables = referenced_tables st \<union> kept,
          cte_tables = ctes'\<rparr>)"

text \<open>
  The loop inside the \<^verbatim>\<open>try\<close>. On an expression that is \<^verbatim>\<open>None\<close> the call
  \<^verbatim>\<open>expression.find_all\<close> raises; the sets keep what the earlier expressions put into them,
  so the exception is returned together with them.
\<close>

fun visit_expressions :: "expression option list \<Rightarrow> extraction \<Rightarrow> error \<times> extraction + extraction" where
  "visit_expressions [] st = Inr st"
| "visit_expressions (None # es) st = Inl (AttributeError, st)"
| "visit_expressions (Some e # es) st = visit_expressions es (visit_expression e st)"

text \<open>
  The \<^verbatim>\<open>except Exception\<close> clause catches every exception of the body, logs it and falls
  through to the \<^verbatim>\<open>return\<close>; the extractor itself has no exceptional outcome. The removal of
  the created tables is the last statement of the \<^verbatim>\<open>try\<close> and is skipped when the loop raised.
\<close>

definition extract_tables_from_query :: "parser \<Rightarrow> string \<Rightarrow> string set \<times> string set" where
  "extract_tables_from_query parse query =
     (case parse query of
        None \<Rightarrow> ({}, {})
      | Some expressions \<Rightarrow>
          (case visit_expressions expressions
                  \<lparr>created_tables = {}, referenced_tables = {}, cte_tables = {}\<rparr> of
             Inr st \<Rightarrow> (created_tables st, referenced_tables st - created_tables st)
           | Inl (e, st) \<Rightarrow> (created_tables st, referenced_tables st)))"

subsection \<open>\<^verbatim>\<open>_build_dependency_graph\<close> and \<^verbatim>\<open>analyze_queries\<close>\<close>

text \<open>
  The graph is a \<^verbatim>\<open>defaultdict(set)\<close>: \<^verbatim>\<open>graph[created_table].add(ref_table)\<close> appends the key
  when it is new. With no referenced table the inner loop does not run and no key is made.
\<close>

definition add_dependencies :: "string \<Rightarrow> string set \<Rightarrow> graph \<Rightarrow> graph" where
  "add_dependencies created_table referenced graph =
     (if referenced = {} then graph
      else (case map_of graph created_table of
              None \<Rightarrow> graph @ [(created_table, referenced)]
            | Some deps \<Rightarrow> AList.update created_table (deps \<union> referenced) graph))"

text \<open>
  Python does not fix the order in which a \<^verbatim>\<open>for\<close> loop runs over a set: in CPython it
  depends on how the set was built, not on its elements alone. The order decides the order of
  the keys of the graph, so it is a parameter, \<open>ord\<close>. The sets that the builder iterates
  are built from statements: \<^verbatim>\<open>created\<close> from one statement, \<^verbatim>\<open>all_tables\<close> from all the
  statements in their order. \<open>ord\<close> takes the statements that a set was built from, and the
  set, and gives the list in which the set is iterated.
\<close>

type_synonym iteration = "string list \<Rightarrow> string set \<Rightarrow> string list"

definition add_query ::
  "iteration \<Rightarrow> parser \<Rightarrow> string \<Rightarrow> graph \<times> string set \<Rightarrow> graph \<times> string set" where
  "add_query ord parse query acc =
     (case acc of (graph, all_tables) \<Rightarrow>
        (case extract_tables_from_query parse query of (created, referenced) \<Rightarrow>
           (fold (\<lambda>created_table. add_dependencies created_table referenced) (ord [query] created)
              graph,
            all_tables \<union> created \<union> referenced)))"

definition add_standalone :: "string \<Rightarrow> graph \<Rightarrow> graph" where
  "add_standalone table graph = (if table \<in> fst ` set graph then graph else graph @ [(table, {})])"

definition build_dependency_graph ::
  "iteration \<Rightarrow> parser \<Rightarrow> string list \<Rightarrow> graph" where
  "build_dependency_graph ord parse qs =
     (case fold (add_query ord parse) qs ([], {}) of
        (graph, all_tables) \<Rightarrow> fold add_standalone (ord qs all_tables) graph)"

definition analyze_queries ::
  "iteration \<Rightarrow> parser \<Rightarrow> string list
     \<Rightarrow> (error + string list \<times> string list) option" where
  "analyze_queries ord parse qs = topological_sort (build_dependency_graph ord parse qs)"

subsection \<open>\<^verbatim>\<open>split_batch_queries\<close> and \<^verbatim>\<open>_process_large_batch\<close>\<close>

text \<open>
  \<^verbatim>\<open>re.sub(r'NOLOGGING', '', sql_batch, flags=re.IGNORECASE)\<close>, for any word: every occurrence
  of the word, in any case, is removed, from left to right.
\<close>

function remove_ci :: "string \<Rightarrow> string \<Rightarrow> string" where
  "remove_ci word [] = []"
| "remove_ci word (c # cs) =
     (if word \<noteq> [] \<and> lower (take (length word) (c # cs)) = lower word
      then remove_ci word (drop (length word) (c # cs))
      else c # remove_ci word cs)"
  by pat_completeness auto
termination
  by (relation "measure (\<lambda>(word, s). length s)") auto

definition is_digit :: "char \<Rightarrow> bool" where
  "is_digit c = (48 \<le> (of_char c :: nat) \<and> (of_char c :: nat) \<le> 57)"

text \<open>
  \<^verbatim>\<open>re.sub(r'PARALLEL \d+', '', clean_batch, flags=re.IGNORECASE)\<close>: the word, one space and
  the longest run of digits after it, which must not be empty.
\<close>

lemma length_dropWhile_drop: "length (dropWhile P (drop n xs)) \<le> length xs"
  by (rule le_trans[OF length_dropWhile_le]) simp

function remove_parallel :: "string \<Rightarrow> string" where
  "remove_parallel [] = []"
| "remove_parallel (c # cs) =
     (if lower (take 9 (c # cs)) = ''parallel '' \<and> takeWhile is_digit (drop 9 (c # cs)) \<noteq> []
      then remove_parallel (dropWhile is_digit (drop 9 (c # cs)))
      else c # remove_parallel cs)"
  by pat_completeness auto
termination
  by (relation "measure length") (auto simp: less_Suc_eq_le length_dropWhile_drop)

text \<open>\<^verbatim>\<open>len(sql_batch.split(';'))\<close> is the number of semicolons plus one.\<close>

definition process_large_batch :: "string \<Rightarrow> string list" where
  "process_large_batch sql_batch =
     (let quick_count = count_list sql_batch CHR '';'' + 1
      in if quick_count > 1000 then stream_split_queries sql_batch else split_with_regex sql_batch)"

text \<open>
  \<open>render\<close> stands for \<^verbatim>\<open>str(q)\<close> on a parsed expression; \<^verbatim>\<open>str(None)\<close> is \<^verbatim>\<open>'None'\<close>.
\<close>

definition split_batch_queries :: "parser \<Rightarrow> (expression \<Rightarrow> string) \<Rightarrow> string \<Rightarrow> string list" where
  "split_batch_queries parse render sql_batch =
     (if length sql_batch > 1000000 then
        process_large_batch (remove_parallel (remove_ci ''NOLOGGING'' sql_batch))
      else
        (case parse sql_batch of
           None \<Rightarrow> split_with_regex sql_batch
         | Some parsed_queries \<Rightarrow>
             (let qs = map (\<lambda>q. case q of None \<Rightarrow> ''None'' | Some e \<Rightarrow> render e) parsed_queries
              in if qs \<noteq> [] then qs
                 else if strip sql_batch \<noteq> [] then split_with_regex sql_batch
                 else [])))"

subsection \<open>\<^verbatim>\<open>analyze_batch\<close> and \<^verbatim>\<open>_analyze_large_batch\<close>\<close>

text \<open>
  An entry of \<^verbatim>\<open>query_details\<close> and the returned dict. The lists that the source makes from
  sets (\<^verbatim>\<open>list(created)\<close>, \<^verbatim>\<open>list(external_dependencies)\<close>) have no fixed order and no
  duplicates and stay sets. The timing is not modelled. \<open>created_tables_key\<close> and \<open>note_key\<close>
  are the two keys that only the large-batch result has; \<open>logged\<close> holds the warnings that
  the sorter logged and is not a key of the dict.
\<close>

record query_info =
  query :: string
  creates :: "string set"
  references :: "string set"

record analysis =
  table_creation_order :: "string list"
  external_dependencies :: "string set"
  query_details :: "query_info list"
  total_queries :: nat
  total_tables :: nat
  created_tables_key :: "nat option"
  note_key :: "string option"
  logged :: "string list"

definition query_entry :: "parser \<Rightarrow> string \<Rightarrow> query_info" where
  "query_entry parse q =
     (case extract_tables_from_query parse q of
        (created, referenced) \<Rightarrow> \<lparr>query = q, creates = created, references = referenced\<rparr>)"

text \<open>
  The regular branch of \<^verbatim>\<open>analyze_batch\<close>. Its loop takes the statements a hundred at a
  time, each chunk in order, which is one pass over the list.
\<close>

definition analyze_regular ::
  "iteration \<Rightarrow> parser \<Rightarrow> string list \<Rightarrow> (error + analysis) option" where
  "analyze_regular ord parse qs =
     (let query_tables = map (query_entry parse) qs;
          all_created_tables = fold (\<lambda>d acc. acc \<union> creates d) query_tables {};
          all_referenced_tables = fold (\<lambda>d acc. acc \<union> references d) query_tables {};
          external = all_referenced_tables - all_created_tables
      in case analyze_queries ord parse qs of
           None \<Rightarrow> None
         | Some (Inl e) \<Rightarrow> Some (Inl e)
         | Some (Inr (table_order, warnings)) \<Rightarrow>
             Some (Inr \<lparr>table_creation_order = table_order,
                        external_dependencies = external,
                        query_details = query_tables,
                        total_queries = length qs,
                        total_tables = card all_created_tables + card external,
                        created_tables_key = None,
                        note_key = None,
                        logged = warnings\<rparr>))"

text \<open>\<^verbatim>\<open>re.search(r'^\s*CREATE\s', query, re.IGNORECASE)\<close>\<close>

definition is_create_statement :: "string \<Rightarrow> bool" where
  "is_create_statement q =
     (let rest = dropWhile is_space q
      in lower (take 6 rest) = ''create'' \<and> (case drop 6 rest of [] \<Rightarrow> False | c # cs \<Rightarrow> is_space c))"

text \<open>
  The statements from which the large-batch path builds its graph: the CREATE statements and,
  of the first thousand other statements, those that reference a created table.
\<close>

definition critical_queries :: "parser \<Rightarrow> string list \<Rightarrow> string list" where
  "critical_queries parse qs =
     (let create_statements = filter is_create_statement qs;
          other_statements = filter (\<lambda>q. \<not> is_create_statement q) qs;
          all_created_tables =
            fold (\<lambda>q acc. acc \<union> fst (extract_tables_from_query parse q)) create_statements {}
      in create_statements @
         [q \<leftarrow> take 1000 other_statements.
            snd (extract_tables_from_query parse q) \<inter> all_created_tables \<noteq> {}])"

definition analyze_large_batch ::
  "iteration \<Rightarrow> parser \<Rightarrow> string list \<Rightarrow> (error + analysis) option" where
  "analyze_large_batch ord parse qs =
     (let create_statements = filter is_create_statement qs;
          other_statements = filter (\<lambda>q. \<not> is_create_statement q) qs;
          create_details = map (query_entry parse) create_statements;
          all_created_tables = fold (\<lambda>d acc. acc \<union> creates d) create_details {};
          all_referenced_tables =
            fold (\<lambda>q acc. acc \<union> snd (extract_tables_from_query parse q)) other_statements {};
          other_details =
            take 1000 (map (\<lambda>q. \<lparr>query = q, creates = {},
                                  references = snd (extract_tables_from_query parse q)\<rparr>)
                         other_statements);
          query_tables = create_details @ take (min 1000 (length other_details)) other_details;
          external = all_referenced_tables - all_created_tables
      in case analyze_queries ord parse (critical_queries parse qs) of
           None \<Rightarrow> None
         | Some (Inl e) \<Rightarrow> Some (Inl e)
         | Some (Inr (table_order, warnings)) \<Rightarrow>
             Some (Inr \<lparr>table_creation_order = table_order,
                        external_dependencies = external,
                        query_details = query_tables,
                        total_queries = length qs,
                        total_tables = card all_created_tables + card external,
                        created_tables_key = Some (card all_created_tables),
                        note_key = Some (''Large batch optimization applied: detailed query analysis ''
                          @ ''limited to CREATE statements and critical dependencies.''),
                        logged = warnings\<rparr>))"

definition analyze_batch ::
  "iteration \<Rightarrow> parser \<Rightarrow> (expression \<Rightarrow> string) \<Rightarrow> string
     \<Rightarrow> (error + analysis) option" where
  "analyze_batch ord parse render sql_batch =
     (let qs = split_batch_queries parse render sql_batch
      in if length qs > 1000 then analyze_large_batch ord parse qs
         else analyze_regular ord parse qs)"

subsection \<open>The statements of the scenarios\<close>

text \<open>
  What the analyzer reads from the parse of the statements named in the specification's
  scenarios, for use at concrete inputs. In a CREATE TABLE ... AS SELECT the target is the
  \<^verbatim>\<open>this\<close> of the expression and is also among the nodes of \<^verbatim>\<open>find_all(Table)\<close>.
\<close>

definition tbl :: "string \<Rightarrow> table_node option" where
  "tbl n = Some \<lparr>table_db = [], table_name = n\<rparr>"

definition create_b_from_a :: expression where
  "create_b_from_a =
     \<lparr>is_create = True, this_node = tbl ''b'', ctes = [], tables = [tbl ''b'', tbl ''a'']\<rparr>"

definition create_c_from_b :: expression where
  "create_c_from_b =
     \<lparr>is_create = True, this_node = tbl ''c'', ctes = [], tables = [tbl ''c'', tbl ''b'']\<rparr>"

definition create_a_from_a_b :: expression where
  "create_a_from_a_b =
     \<lparr>is_create = True, this_node = tbl ''a'', ctes = [],
      tables = [tbl ''a'', tbl ''a'', tbl ''b'']\<rparr>"

definition select_from_b :: expression where
  "select_from_b = \<lparr>is_create = False, this_node = None, ctes = [], tables = [tbl ''b'']\<rparr>"

definition select_from_x :: expression where
  "select_from_x = \<lparr>is_create = False, this_node = None, ctes = [], tables = [tbl ''x'']\<rparr>"

definition create_a_from_a :: expression where
  "create_a_from_a =
     \<lparr>is_create = True, this_node = tbl ''a'', ctes = [], tables = [tbl ''a'', tbl ''a'']\<rparr>"

text \<open>
  \<^verbatim>\<open>WITH t AS (SELECT 1) SELECT * FROM t, real_table\<close>: the alias of the CTE node is a
  plain string and has no \<^verbatim>\<open>name\<close> attribute; the table nodes are \<open>t\<close> and \<open>real_table\<close>.
\<close>

definition with_t_plain :: expression where
  "with_t_plain =
     \<lparr>is_create = False, this_node = None, ctes = [None],
      tables = [tbl ''t'', tbl ''real_table'']\<rparr>"

text \<open>
  A parser that knows these statements and raises on every other text. A text with an empty
  statement after a semicolon parses to the expressions before it and a missing one.
\<close>

definition scenario_parse :: parser where
  "scenario_parse = map_of
     [(''CREATE TABLE b AS SELECT * FROM a; CREATE TABLE c AS SELECT * FROM b;'',
         [Some create_b_from_a, Some create_c_from_b]),
      (''CREATE TABLE b AS SELECT * FROM a'', [Some create_b_from_a]),
      (''CREATE TABLE c AS SELECT * FROM b'', [Some create_c_from_b]),
      (''CREATE TABLE a AS SELECT * FROM a, b'', [Some create_a_from_a_b]),
      (''CREATE TABLE a AS SELECT * FROM a; ;'', [Some create_a_from_a, None]),
      (''SELECT * FROM b'', [Some select_from_b]),
      (''SELECT * FROM x'', [Some select_from_x]),
      (''WITH t AS (SELECT 1) SELECT * FROM t, real_table'', [Some with_t_plain])]"

definition scenario_render :: "expression \<Rightarrow> string" where
  "scenario_render e =
     (if e = create_b_from_a then ''CREATE TABLE b AS SELECT * FROM a''
      else if e = create_c_from_b then ''CREATE TABLE c AS SELECT * FROM b''
      else if e = create_a_from_a_b then ''CREATE TABLE a AS SELECT * FROM a, b''
      else if e = create_a_from_a then ''CREATE TABLE a AS SELECT * FROM a''
      else if e = select_from_b then ''SELECT * FROM b''
      else if e = select_from_x then ''SELECT * FROM x''
      else ''WITH t AS (SELECT 1) SELECT * FROM t, real_table'')"

text \<open>An iteration order for concrete inputs: every set in sorted order, however it was built.\<close>

definition sorted_order :: iteration where
  "sorted_order built_from S = sorted_list_of_set S"

subsection \<open>Notions used in the statements\<close>

text \<open>
  How many entries of the graph hold \<open>n\<close> in their dependency set, and whether none does.
\<close>

definition refcount :: "graph \<Rightarrow> string \<Rightarrow> int" where
  "refcount es n = int (length [e \<leftarrow> es. n \<in> snd e])"

definition unreferenced :: "graph \<Rightarrow> string \<Rightarrow> bool" where
  "unreferenced g n = list_all (\<lambda>e. n \<notin> snd e) g"

text \<open>An iteration order lists every finite set once, however it was built.\<close>

definition valid_order :: "iteration \<Rightarrow> bool" where
  "valid_order ord = (\<forall>h S. finite S \<longrightarrow> set (ord h S) = S \<and> distinct (ord h S))"

text \<open>
  What the sorter returns for a graph: the nodes that no entry depends on, in key order, then
  the other nodes in key order with the cycle warning.
\<close>

definition sort_outcome :: "graph \<Rightarrow> string list \<times> string list" where
  "sort_outcome g =
     (let roots = [node \<leftarrow> map fst g. unreferenced g node] in
      if length roots \<noteq> length g then
        (roots @ [node \<leftarrow> map fst g. node \<notin> set roots],
         [''Circular dependencies detected in SQL queries'',
          ''Tables in cycles: '' @ join '', '' [node \<leftarrow> map fst g. node \<notin> set roots]])
      else (roots, []))"

text \<open>
  The part of a statement in the graph builder: the edges it adds, and the tables it names.
\<close>

definition add_edges_of :: "iteration \<Rightarrow> parser \<Rightarrow> string \<Rightarrow> graph \<Rightarrow> graph" where
  "add_edges_of ord parse q g =
     fold (\<lambda>c. add_dependencies c (snd (extract_tables_from_query parse q)))
       (ord [q] (fst (extract_tables_from_query parse q))) g"

definition tables_of :: "parser \<Rightarrow> string \<Rightarrow> string set" where
  "tables_of parse q =
     fst (extract_tables_from_query parse q) \<union> snd (extract_tables_from_query parse q)"

text \<open>
  The dependent tables of a list of statements: those that a statement creates while it
  references at least one table.
\<close>

definition dependent_tables :: "parser \<Rightarrow> string list \<Rightarrow> string set" where
  "dependent_tables parse qs =
     \<Union> ((\<lambda>q. if snd (extract_tables_from_query parse q) = {} then {}
               else fst (extract_tables_from_query parse q)) ` set qs)"

text \<open>
  The splitter as the specification words it (section 4.1), read from the text alone. The
  context after a text is the quote character of the literal that is open there, if any, and
  the parenthesis depth: a quote character opens a literal when none is open, the same quote
  character closes it, and every other character inside the literal is part of it; outside
  literals an opening parenthesis raises the depth and a closing one lowers it, not below
  zero. A text ends at top level when no literal is open and the depth is zero.
\<close>

definition track :: "char \<Rightarrow> char option \<times> int \<Rightarrow> char option \<times> int" where
  "track c ctx =
     (case ctx of
        (Some q, depth) \<Rightarrow> if c = q then (None, depth) else (Some q, depth)
      | (None, depth) \<Rightarrow>
          if c = CHR 0x27 \<or> c = CHR 0x22 then (Some c, depth)
          else if c = CHR ''('' then (None, depth + 1)
          else if c = CHR '')'' then (None, max 0 (depth - 1))
          else (None, depth))"

definition context_after :: "string \<Rightarrow> char option \<times> int" where
  "context_after t = fold track t (None, 0)"

definition top_level :: "string \<Rightarrow> bool" where
  "top_level t = (context_after t = (None, 0))"

text \<open>
  The pieces of a text: it is cut after every semicolon that follows a text ending at top
  level, and nowhere else. \<open>before\<close> is the text read so far and \<open>piece\<close> the piece being
  read. The statements of a text are its pieces, trimmed, without the blank ones.
\<close>

fun cut :: "string \<Rightarrow> string \<Rightarrow> string \<Rightarrow> string list" where
  "cut before piece [] = [piece]"
| "cut before piece (c # rest) =
     (if c = CHR '';'' \<and> top_level before then (piece @ [c]) # cut (before @ [c]) [] rest
      else cut (before @ [c]) (piece @ [c]) rest)"

definition statements_of :: "string \<Rightarrow> string list" where
  "statements_of t = [p \<leftarrow> map strip (cut [] [] t). p \<noteq> []]"

text \<open>The variables of the scan loop agree with a context.\<close>

definition agrees :: "scan \<Rightarrow> char option \<times> int \<Rightarrow> bool" where
  "agrees s ctx =
     (in_quotes s = (fst ctx \<noteq> None) \<and> quote_char s = fst ctx \<and> paren_level s = snd ctx
      \<and> fst ctx \<in> {None, Some (CHR 0x27), Some (CHR 0x22)})"

section \<open>Properties of the sorter\<close>

subsection \<open>The counters and the queue\<close>

lemma for_each_unchanged:
  "(\<And>x. x \<in> set xs \<Longrightarrow> body x s = Inr s) \<Longrightarrow> for_each body xs s = Inr s"
  by (induction xs) auto

lemma refcount_simps [simp]:
  "refcount [] n = 0"
  "refcount ((k, S) # es) n = (if n \<in> S then 1 else 0) + refcount es n"
  by (simp_all add: refcount_def)

lemma fold_count_dependents:
  "fold (\<lambda>(node, deps). count_dependents deps) es cs = map (\<lambda>(n, c). (n, c + refcount es n)) cs"
proof (induction es arbitrary: cs)
  case Nil
  then show ?case by simp
next
  case (Cons e es)
  obtain k S where e: "e = (k, S)" by (cases e)
  have "fold (\<lambda>(node, deps). count_dependents deps) (e # es) cs
      = map (\<lambda>(n, c). (n, c + refcount es n)) (count_dependents S cs)"
    by (simp add: e Cons.IH)
  also have "\<dots> = map (\<lambda>(n, c). (n, c + refcount (e # es) n)) cs"
    by (auto simp: count_dependents_def e)
  finally show ?case .
qed

lemma count_in_degree_eq: "count_in_degree g = map (\<lambda>(n, deps). (n, refcount g n)) g"
  by (auto simp: count_in_degree_def fold_count_dependents zero_degrees_def)

lemma map_of_refcount:
  "n \<in> fst ` set g \<Longrightarrow> map_of (map (\<lambda>(n, deps). (n, refcount h n)) g) n = Some (refcount h n)"
  by (induction g) auto

lemma refcount_0: "refcount g n = 0 \<longleftrightarrow> unreferenced g n"
  by (simp add: refcount_def unreferenced_def list_all_iff filter_empty_conv)

text \<open>The queue starts with the nodes that no entry of the graph depends on, in key order.\<close>

lemma initial_state_eq:
  "initial_state g = \<lparr>cur_graph = g, in_degree = count_in_degree g,
     queue = [node \<leftarrow> map fst g. unreferenced g node], result = []\<rparr>"
proof -
  have k: "map fst (count_in_degree g) = map fst g"
    by (simp add: count_in_degree_eq split_def o_def)
  have "[node \<leftarrow> map fst g. map_of (count_in_degree g) node = Some 0]
      = [node \<leftarrow> map fst g. unreferenced g node]"
    by (rule filter_cong) (auto simp: count_in_degree_eq map_of_refcount refcount_0)
  then show ?thesis by (simp add: initial_state_def Let_def k)
qed

text \<open>
  A node that nothing depends on is in no dependency set, so the inner loop finds no edge to
  remove for it: the graph, the counters and the queue stay as they are.
\<close>

lemma remove_edge_unchanged:
  assumes "unreferenced (cur_graph st) node" "dependent \<in> fst ` set (cur_graph st)"
  shows "remove_edge node dependent st = Inr st"
proof -
  from assms(2) obtain deps where d: "map_of (cur_graph st) dependent = Some deps"
    by (metis domD dom_map_of_conv_image_fst)
  then have "(dependent, deps) \<in> set (cur_graph st)" by (rule map_of_SomeD)
  with assms(1) have "node \<notin> deps" by (auto simp: unreferenced_def list_all_iff)
  with d show ?thesis by (simp add: remove_edge_def)
qed

lemma process_queue_unreferenced:
  "list_all (unreferenced (cur_graph st)) (queue st) \<Longrightarrow>
     process_queue st = Some (Inr (st\<lparr>queue := [], result := result st @ queue st\<rparr>))"
proof (induction "queue st" arbitrary: st)
  case Nil
  then show ?case by (subst process_queue.simps) simp
next
  case (Cons node rest)
  let ?st = "st\<lparr>queue := rest, result := result st @ [node]\<rparr>"
  have u: "unreferenced (cur_graph ?st) node"
    using Cons.hyps(2)[symmetric] Cons.prems by simp
  have fe: "for_each (remove_edge node) (map fst (cur_graph st)) ?st = Inr ?st"
    by (rule for_each_unchanged) (use u in \<open>auto intro!: remove_edge_unchanged\<close>)
  have "process_queue ?st = Some (Inr (?st\<lparr>queue := [], result := result ?st @ queue ?st\<rparr>))"
    by (rule Cons.hyps(1)) (use Cons.hyps(2)[symmetric] Cons.prems in auto)
  then show ?case
    by (subst process_queue.simps) (simp add: Cons.hyps(2)[symmetric] fe)
qed

lemma process_queue_initial:
  "process_queue (initial_state g) = Some (Inr \<lparr>cur_graph = g, in_degree = count_in_degree g,
     queue = [], result = [node \<leftarrow> map fst g. unreferenced g node]\<rparr>)"
  unfolding initial_state_eq
  by (subst process_queue_unreferenced) (simp_all add: list_all_iff)

lemma topological_sort_eq: "topological_sort g = Some (Inr (sort_outcome g))"
  by (simp add: topological_sort_def process_queue_initial sort_outcome_def Let_def)

lemma filter_full_length: "length (filter P xs) = length xs \<Longrightarrow> filter P xs = xs"
  by (metis filter_True length_filter_less less_irrefl)

lemma mset_roots_rest:
  "mset (filter P xs) + mset [x \<leftarrow> xs. x \<notin> set (filter P xs)] = mset xs"
proof -
  have "[x \<leftarrow> xs. x \<notin> set (filter P xs)] = [x \<leftarrow> xs. \<not> P x]"
    by (rule filter_cong) auto
  then show ?thesis by simp
qed

subsection \<open>Claims about the sorter\<close>

text \<open>
  C10. For every dependency graph, cyclic or not, the sorter returns: it neither loops forever
  nor raises, and the order it returns holds every key of the graph exactly as often as the
  graph does, that is once for a dict. The order is a permutation of the nodes.
\<close>

theorem topological_sort_permutation:
  "\<exists>order log. topological_sort g = Some (Inr (order, log)) \<and> mset order = mset (map fst g)"
proof (cases "length [node \<leftarrow> map fst g. unreferenced g node] = length g")
  case True
  then have "[node \<leftarrow> map fst g. unreferenced g node] = map fst g"
    by (intro filter_full_length) simp
  with True show ?thesis by (simp add: topological_sort_eq sort_outcome_def Let_def)
next
  case False
  have "mset ([node \<leftarrow> map fst g. unreferenced g node]
          @ [node \<leftarrow> map fst g. node \<notin> set [node \<leftarrow> map fst g. unreferenced g node]])
      = mset (map fst g)"
    unfolding mset_append by (rule mset_roots_rest)
  with False show ?thesis by (simp only: topological_sort_eq sort_outcome_def Let_def if_True not_False_eq_True) blast
qed

text \<open>
  C8. On the cyclic graph \<open>{A: {B}, B: {A}}\<close> the sorter returns the two-element order
  \<open>[A, B]\<close> and logs the cycle warning, without raising. In general the queue loop returns
  normally on every graph, and the order returned is what the loop resolved followed by
  every node it left unresolved.
\<close>

theorem topological_sort_cycle_tolerance:
  "topological_sort [(''A'', {''B''}), (''B'', {''A''})] =
     Some (Inr ([''A'', ''B''],
       [''Circular dependencies detected in SQL queries'', ''Tables in cycles: A, B'']))
   \<and> (\<exists>st log. process_queue (initial_state g) = Some (Inr st)
         \<and> topological_sort g =
             Some (Inr (result st @ [node \<leftarrow> map fst g. node \<notin> set (result st)], log)))"
proof
  show "topological_sort [(''A'', {''B''}), (''B'', {''A''})] =
     Some (Inr ([''A'', ''B''],
       [''Circular dependencies detected in SQL queries'', ''Tables in cycles: A, B'']))"
    by (simp add: topological_sort_eq sort_outcome_def unreferenced_def)
next
  let ?roots = "[node \<leftarrow> map fst g. unreferenced g node]"
  show "\<exists>st log. process_queue (initial_state g) = Some (Inr st)
         \<and> topological_sort g =
             Some (Inr (result st @ [node \<leftarrow> map fst g. node \<notin> set (result st)], log))"
  proof (cases "length ?roots = length g")
    case True
    then have "?roots = map fst g" by (intro filter_full_length) simp
    with True show ?thesis by (simp add: topological_sort_eq sort_outcome_def process_queue_initial Let_def)
  next
    case False
    then show ?thesis by (simp add: topological_sort_eq sort_outcome_def process_queue_initial Let_def)
  qed
qed

text \<open>
  C1, at a failing input. The graph \<open>{b: {a}, a: {}}\<close> has no cycle and its one edge says
  that \<open>b\<close> depends on \<open>a\<close>. The sorter counts for each node the nodes that depend on it,
  so it starts from \<open>b\<close>, resolves nothing further, reports a cycle and returns \<open>b\<close>
  before \<open>a\<close>.
\<close>

theorem topological_sort_acyclic_reversed:
  "topological_sort [(''b'', {''a''}), (''a'', {})] =
     Some (Inr ([''b'', ''a''],
       [''Circular dependencies detected in SQL queries'', ''Tables in cycles: a'']))"
  by (simp add: topological_sort_eq sort_outcome_def unreferenced_def)

section \<open>Properties of the splitters\<close>

text \<open>
  The scan loop keeps the context of the text it has read, and ends a statement exactly where
  the text is cut.
\<close>

lemma context_after_snoc: "context_after (t @ [c]) = track c (context_after t)"
  by (simp add: context_after_def)

lemma scan_text_snoc: "scan_text (pre @ [c]) = scan_char c (scan_text pre)"
  by (simp add: scan_text_def)

lemma agrees_step: "agrees s ctx \<Longrightarrow> agrees (scan_char c s) (track c ctx)"
  by (cases ctx; cases "fst ctx")
     (auto simp: agrees_def scan_char_def track_def Let_def)

lemma agrees_start: "agrees scan_start (context_after [])"
  by (simp add: agrees_def scan_start_def context_after_def)

lemma scan_char_cut:
  assumes "agrees s ctx"
  shows "queries (scan_char c s) =
           (if c = CHR '';'' \<and> ctx = (None, 0) then flush (s\<lparr>current_query := current_query s @ [c]\<rparr>)
            else queries s)"
    and "current_query (scan_char c s) =
           (if c = CHR '';'' \<and> ctx = (None, 0) then [] else current_query s @ [c])"
  using assms
  by (cases ctx; cases "fst ctx"; auto simp: agrees_def scan_char_def Let_def flush_def)+

lemma flush_fold:
  "agrees s (context_after before) \<Longrightarrow>
     flush (fold scan_char rest s) =
       queries s @ [p \<leftarrow> map strip (cut before (current_query s) rest). p \<noteq> []]"
proof (induction rest arbitrary: s before)
  case Nil
  then show ?case by (simp add: flush_def)
next
  case (Cons c rest)
  have a: "agrees (scan_char c s) (context_after (before @ [c]))"
    unfolding context_after_snoc using Cons.prems by (rule agrees_step)
  note ih = Cons.IH[OF a]
  note sc = scan_char_cut[OF Cons.prems, of c]
  show ?case
  proof (cases "c = CHR '';'' \<and> top_level before")
    case True
    then have t: "c = CHR '';'' \<and> context_after before = (None, 0)" by (simp add: top_level_def)
    have c: "cut before (current_query s) (c # rest)
        = (current_query s @ [c]) # cut (before @ [c]) [] rest"
      using True by simp
    have q: "queries (scan_char c s) = flush (s\<lparr>current_query := current_query s @ [c]\<rparr>)"
      and u: "current_query (scan_char c s) = []"
      using sc t by simp_all
    show ?thesis
      unfolding fold_simps c ih q u by (simp add: flush_def)
  next
    case False
    then have t: "\<not> (c = CHR '';'' \<and> context_after before = (None, 0))"
      by (simp add: top_level_def)
    have c: "cut before (current_query s) (c # rest)
        = cut (before @ [c]) (current_query s @ [c]) rest"
      using False by auto
    have q: "queries (scan_char c s) = queries s"
      and u: "current_query (scan_char c s) = current_query s @ [c]"
      using sc t by auto
    show ?thesis
      unfolding fold_simps c ih q u ..
  qed
qed

lemma split_with_regex_statements:
  "split_with_regex sql = statements_of (block_comments (line_comments sql))"
  using flush_fold[OF agrees_start, of "block_comments (line_comments sql)"]
  by (simp add: split_with_regex_def scan_text_def statements_of_def scan_start_def)

text \<open>
  A quote character read outside literals opens a literal, which stays open up to the next
  occurrence of the same character; the text is not cut inside it.
\<close>

lemma fold_track_literal:
  "q \<notin> set lit \<Longrightarrow> fold track lit (Some q, d) = (Some q, d)"
  by (induction lit) (auto simp: track_def)

lemma context_open_literal:
  assumes "fst (context_after before) = None" "q = CHR 0x27 \<or> q = CHR 0x22" "q \<notin> set lit"
  shows "context_after (before @ q # lit) = (Some q, snd (context_after before))"
    and "context_after (before @ q # lit @ [q]) = context_after before"
proof -
  obtain d where c: "context_after before = (None, d)" using assms(1) by (cases "context_after before") auto
  have o: "track q (None, d) = (Some q, d)" using assms(2) by (auto simp: track_def)
  show 1: "context_after (before @ q # lit) = (Some q, snd (context_after before))"
    using c o fold_track_literal[OF assms(3)] by (simp add: context_after_def)
  have "context_after (before @ q # lit @ [q]) = track q (context_after (before @ q # lit))"
    using context_after_snoc[of "before @ q # lit" q] by simp
  with 1 c show "context_after (before @ q # lit @ [q]) = context_after before"
    by (simp add: track_def)
qed

lemma cut_not_top:
  "(\<And>n. n < length mid \<Longrightarrow> \<not> top_level (before @ take n mid)) \<Longrightarrow>
     cut before piece (mid @ rest) = cut (before @ mid) (piece @ mid) rest"
proof (induction mid arbitrary: before piece)
  case Nil
  then show ?case by simp
next
  case (Cons c mid)
  have n: "\<not> top_level before" using Cons.prems[of 0] by simp
  have "cut (before @ [c]) (piece @ [c]) (mid @ rest)
      = cut ((before @ [c]) @ mid) ((piece @ [c]) @ mid) rest"
  proof (rule Cons.IH)
    fix n assume "n < length mid"
    then have "Suc n < length (c # mid)" by simp
    from Cons.prems[OF this] show "\<not> top_level ((before @ [c]) @ take n mid)" by simp
  qed
  with n show ?case by simp
qed

lemma cut_literal:
  assumes "fst (context_after before) = None" "q = CHR 0x27 \<or> q = CHR 0x22" "q \<notin> set lit"
  shows "cut before piece (q # lit @ q # rest)
       = cut (before @ q # lit @ [q]) (piece @ q # lit @ [q]) rest"
proof -
  have a: "cut before piece ([q] @ (lit @ q # rest)) = cut (before @ [q]) (piece @ [q]) (lit @ q # rest)"
    using assms(2) by auto
  have "cut (before @ [q]) (piece @ [q]) ((lit @ [q]) @ rest)
      = cut ((before @ [q]) @ (lit @ [q])) ((piece @ [q]) @ (lit @ [q])) rest"
  proof (rule cut_not_top)
    fix n assume "n < length (lit @ [q])"
    then have n: "n \<le> length lit" by simp
    then have t: "take n (lit @ [q]) = take n lit" by simp
    have "q \<notin> set (take n lit)" using assms(3) by (meson in_set_takeD)
    from context_open_literal(1)[OF assms(1,2) this] n
    show "\<not> top_level ((before @ [q]) @ take n (lit @ [q]))"
      by (simp add: top_level_def)
  qed
  with a show ?thesis by simp
qed

text \<open>
  Outside literals an opening parenthesis raises the depth, and up to the next quote character
  or closing parenthesis the text is not cut.
\<close>

lemma depth_nonneg: "0 \<le> d \<Longrightarrow> 0 \<le> snd (fold track t (q, d))"
  by (induction t arbitrary: q d) (auto simp: track_def split: option.splits)

lemma fold_track_inner:
  "set inner \<inter> {CHR 0x27, CHR 0x22, CHR '')''} = {} \<Longrightarrow>
     fst (fold track inner (None, d)) = None \<and> d \<le> snd (fold track inner (None, d))"
proof (induction inner arbitrary: d)
  case Nil
  then show ?case by simp
next
  case (Cons c inner)
  have "track c (None, d) = (None, d) \<or> track c (None, d) = (None, d + 1)"
    using Cons.prems by (auto simp: track_def)
  then show ?case
  proof
    assume "track c (None, d) = (None, d)"
    with Cons.IH[of d] Cons.prems show ?thesis by simp
  next
    assume "track c (None, d) = (None, d + 1)"
    with Cons.IH[of "d + 1"] Cons.prems show ?thesis by simp
  qed
qed

lemma cut_parenthesis:
  assumes "fst (context_after outer) = None"
    and "set inner \<inter> {CHR 0x27, CHR 0x22, CHR '')''} = {}"
  shows "cut outer part (CHR ''('' # inner @ tail)
       = cut (outer @ CHR ''('' # inner) (part @ CHR ''('' # inner) tail"
proof -
  obtain d where c: "context_after outer = (None, d)"
    using assms(1) by (cases "context_after outer") auto
  have d: "0 \<le> d" using depth_nonneg[of 0 outer None] c by (simp add: context_after_def)
  have a: "cut outer part (CHR ''('' # inner @ tail)
      = cut (outer @ [CHR ''(''] ) (part @ [CHR ''('']) (inner @ tail)"
    by simp
  have "cut (outer @ [CHR ''('']) (part @ [CHR ''('']) (inner @ tail)
      = cut ((outer @ [CHR ''('']) @ inner) ((part @ [CHR ''('']) @ inner) tail"
  proof (rule cut_not_top)
    fix n assume "n < length inner"
    have "set (take n inner) \<inter> {CHR 0x27, CHR 0x22, CHR '')''} = {}"
      using assms(2) by (auto dest: in_set_takeD)
    from fold_track_inner[OF this, of "d + 1"] c d
    show "\<not> top_level ((outer @ [CHR ''('']) @ take n inner)"
      by (auto simp: top_level_def context_after_def track_def)
  qed
  with a show ?thesis by simp
qed

lemma chunks_small: "s \<noteq> [] \<Longrightarrow> length s \<le> n \<Longrightarrow> chunks_of n s = [s]"
  by (subst chunks_of.simps) (cases s; auto simp: chunks_of.simps)

lemmas scan_eval =
  split_with_regex_def scan_text_def scan_start_def scan_char_def flush_def strip_def is_space_def

lemmas stream_eval =
  stream_split_queries_def chunks_small stream_split_chunks_def take_queries.simps
  find_char_def is_valid_query_boundary_def next_is_def strip_def is_space_def

subsection \<open>Claims about the splitters\<close>

text \<open>
  C9, as the claim states it, fails. The comment substitutions run before the scan and do
  not look at quotes: in the input below the literal \<open>'x--'\<close> holds a comment opener, the
  substitution deletes the rest of that line together with the closing quote, and the scan
  then reads the semicolon of the next literal \<open>'a;b'\<close> as being outside quotes. The first
  conjunct says that in the input itself a literal opened by a single quote is open where that
  semicolon stands; the second that the splitter ends a statement there.
\<close>

theorem split_with_regex_comment_opener_in_literal:
  "context_after (''SELECT 'x--','' @ [CHR 0x0A, CHR 0x27] @ ''a'') = (Some (CHR 0x27), 0)
   \<and> split_with_regex (''SELECT 'x--','' @ [CHR 0x0A, CHR 0x27] @ ''a;b'' @ [CHR 0x27])
       = [''SELECT 'x'' @ [CHR 0x0A, CHR 0x27] @ ''a;'', ''b'' @ [CHR 0x27]]"
  by (simp add: scan_eval context_after_def track_def)

text \<open>
  C9, amended: the quotes and parentheses that count are those of the text that remains after
  the two comment substitutions. The statements returned for an input are exactly the pieces
  of that text, trimmed and without the blank ones, where the text is cut after each
  semicolon that stands outside quoted literals at parenthesis depth zero, and nowhere else.
  In any text, a quote character read outside literals opens a literal that ends at the next
  occurrence of the same character, and no cut falls inside it; after an opening parenthesis
  read outside literals no cut falls before the next quote character or closing parenthesis.
  The input \<open>INSERT INTO t VALUES ('a;b')\<close> splits into exactly one statement, and
  \<open>SELECT 'a;b'; SELECT 2\<close> into two, at the semicolon after the literal.
\<close>

theorem split_with_regex_boundaries:
  "split_with_regex ''INSERT INTO t VALUES ('a;b')'' = [''INSERT INTO t VALUES ('a;b')'']
   \<and> split_with_regex ''SELECT 'a;b'; SELECT 2'' = [''SELECT 'a;b';'', ''SELECT 2'']
   \<and> split_with_regex sql = statements_of (block_comments (line_comments sql))
   \<and> (fst (context_after before) = None \<and> (q = CHR 0x27 \<or> q = CHR 0x22) \<and> q \<notin> set lit \<longrightarrow>
        context_after (before @ q # lit) = (Some q, snd (context_after before))
        \<and> \<not> top_level (before @ q # lit)
        \<and> context_after (before @ q # lit @ [q]) = context_after before
        \<and> cut before piece (q # lit @ q # rest)
            = cut (before @ q # lit @ [q]) (piece @ q # lit @ [q]) rest)
   \<and> (fst (context_after outer) = None
        \<and> set inner \<inter> {CHR 0x27, CHR 0x22, CHR '')''} = {} \<longrightarrow>
        cut outer part (CHR ''('' # inner @ tail)
          = cut (outer @ CHR ''('' # inner) (part @ CHR ''('' # inner) tail)"
proof (intro conjI impI)
  show "split_with_regex ''INSERT INTO t VALUES ('a;b')'' = [''INSERT INTO t VALUES ('a;b')'']"
    by (simp add: scan_eval)
  show "split_with_regex ''SELECT 'a;b'; SELECT 2'' = [''SELECT 'a;b';'', ''SELECT 2'']"
    by (simp add: scan_eval)
  show "split_with_regex sql = statements_of (block_comments (line_comments sql))"
    by (rule split_with_regex_statements)
next
  assume a: "fst (context_after before) = None \<and> (q = CHR 0x27 \<or> q = CHR 0x22) \<and> q \<notin> set lit"
  then have 1: "fst (context_after before) = None" and 2: "q = CHR 0x27 \<or> q = CHR 0x22"
    and 3: "q \<notin> set lit" by simp_all
  show o: "context_after (before @ q # lit) = (Some q, snd (context_after before))"
    by (rule context_open_literal(1)[OF 1 2 3])
  then show "\<not> top_level (before @ q # lit)" by (simp add: top_level_def)
  show "context_after (before @ q # lit @ [q]) = context_after before"
    by (rule context_open_literal(2)[OF 1 2 3])
  show "cut before piece (q # lit @ q # rest)
      = cut (before @ q # lit @ [q]) (piece @ q # lit @ [q]) rest"
    by (rule cut_literal[OF 1 2 3])
next
  assume "fst (context_after outer) = None \<and> set inner \<inter> {CHR 0x27, CHR 0x22, CHR '')''} = {}"
  then show "cut outer part (CHR ''('' # inner @ tail)
      = cut (outer @ CHR ''('' # inner) (part @ CHR ''('' # inner) tail"
    by (intro cut_parenthesis) simp_all
qed

theorem split_with_regex_boundaries_witness:
  "fst (context_after ''SELECT '') = None \<and> CHR 0x27 \<notin> set ''a;b''
   \<and> context_after (''SELECT '' @ CHR 0x27 # ''a;b'')
       = (Some (CHR 0x27), snd (context_after ''SELECT ''))
   \<and> \<not> top_level (''SELECT '' @ CHR 0x27 # ''a;b'')
   \<and> context_after (''SELECT '' @ CHR 0x27 # ''a;b'' @ [CHR 0x27]) = context_after ''SELECT ''
   \<and> cut ''SELECT '' ''SELECT '' (CHR 0x27 # ''a;b'' @ CHR 0x27 # ''; SELECT 2'')
       = cut (''SELECT '' @ CHR 0x27 # ''a;b'' @ [CHR 0x27])
           (''SELECT '' @ CHR 0x27 # ''a;b'' @ [CHR 0x27]) ''; SELECT 2''
   \<and> fst (context_after ''f'') = None
   \<and> set ''x;y'' \<inter> {CHR 0x27, CHR 0x22, CHR '')''} = {}
   \<and> cut ''f'' ''f'' (CHR ''('' # ''x;y'' @ '')'')
       = cut (''f'' @ CHR ''('' # ''x;y'') (''f'' @ CHR ''('' # ''x;y'') '')''
   \<and> split_with_regex ''SELECT 'a;b'; SELECT 2''
       = statements_of (block_comments (line_comments ''SELECT 'a;b'; SELECT 2''))"
proof -
  have h1: "fst (context_after ''SELECT '') = None" and h2: "CHR 0x27 \<notin> set ''a;b''"
    and h3: "fst (context_after ''f'') = None"
    and h4: "set ''x;y'' \<inter> {CHR 0x27, CHR 0x22, CHR '')''} = {}"
    by (simp_all add: context_after_def track_def)
  note split_with_regex_boundaries [where before = "''SELECT ''" and q = "CHR 0x27"
      and lit = "''a;b''" and piece = "''SELECT ''" and rest = "''; SELECT 2''"
      and outer = "''f''" and inner = "''x;y''" and part = "''f''" and tail = "'')''"
      and sql = "''SELECT 'a;b'; SELECT 2''"]
  with h1 h2 h3 h4 show ?thesis by blast
qed

text \<open>
  C4, at a failing input. The streaming splitter cuts the buffer at every semicolon and
  applies the boundary test to the piece since the previous semicolon alone; a piece that
  fails the test is dropped, not carried over. Of the statement below, whose two literals
  each hold a semicolon, it returns only the text between the two quoted semicolons, while
  the character scan returns the statement whole.
\<close>

theorem stream_split_queries_loses_text:
  "stream_split_queries ''SELECT 'a;b', 'c;d' FROM t;'' = [''b', 'c;'']
   \<and> split_with_regex ''SELECT 'a;b', 'c;d' FROM t;'' = [''SELECT 'a;b', 'c;d' FROM t;'']"
  by (simp add: stream_eval scan_eval)

section \<open>Properties of the extractor and of the batch analysis\<close>

lemma kept_tables_eval:
  "kept_tables C (get_table_references e)
     = set (map lower (filter (\<lambda>t. lower t \<notin> C)
         (List.map_filter (map_option qualified_name) (tables e))))"
  by (auto simp: get_table_references_def kept_tables_def)

lemma finite_visit:
  "finite (created_tables st) \<Longrightarrow> finite (referenced_tables st) \<Longrightarrow>
     finite (created_tables (visit_expression e st)) \<and> finite (referenced_tables (visit_expression e st))"
  by (auto simp: visit_expression_def Let_def get_table_references_def kept_tables_def split: option.splits)

lemma finite_visits:
  "finite (created_tables st) \<Longrightarrow> finite (referenced_tables st) \<Longrightarrow>
     (case visit_expressions es st of Inr st' \<Rightarrow> finite (created_tables st') \<and> finite (referenced_tables st')
        | Inl (e, st') \<Rightarrow> finite (created_tables st') \<and> finite (referenced_tables st'))"
  by (induction es st rule: visit_expressions.induct) (auto simp: finite_visit)

lemma finite_extract:
  "finite (fst (extract_tables_from_query parse q)) \<and> finite (snd (extract_tables_from_query parse q))"
proof (cases "parse q")
  case None
  then show ?thesis by (simp add: extract_tables_from_query_def)
next
  case (Some es)
  let ?st0 = "\<lparr>created_tables = {}, referenced_tables = {}, cte_tables = {}\<rparr>"
  have "case visit_expressions es ?st0 of Inr st' \<Rightarrow> finite (created_tables st') \<and> finite (referenced_tables st')
        | Inl (e, st') \<Rightarrow> finite (created_tables st') \<and> finite (referenced_tables st')"
    by (rule finite_visits) simp_all
  with Some show ?thesis
    by (auto simp: extract_tables_from_query_def split: sum.splits prod.splits)
qed

subsection \<open>The graph and the analyses\<close>

lemma distinct_singleton:
  assumes "distinct ys" "set ys = {a}"
  shows "ys = [a]"
proof -
  have "length ys = 1" using distinct_card[OF assms(1)] assms(2) by simp
  then obtain y where "ys = [y]" by (cases ys) auto
  with assms(2) show ?thesis by simp
qed

lemma valid_order_empty: "valid_order ord \<Longrightarrow> ord h {} = []"
  unfolding valid_order_def by (metis finite.emptyI set_empty)

lemma valid_order_single: "valid_order ord \<Longrightarrow> ord h {x} = [x]"
  by (rule distinct_singleton) (simp_all add: valid_order_def)

lemma valid_order_sorted: "valid_order sorted_order"
  by (simp add: valid_order_def sorted_order_def)

lemma fold_add_standalone:
  "distinct xs \<Longrightarrow>
     fold add_standalone xs g = g @ map (\<lambda>t. (t, {})) [t \<leftarrow> xs. t \<notin> fst ` set g]"
proof (induction xs arbitrary: g)
  case Nil
  then show ?case by simp
next
  case (Cons x xs)
  show ?case
  proof (cases "x \<in> fst ` set g")
    case True
    with Cons show ?thesis by (simp add: add_standalone_def)
  next
    case False
    have "[t \<leftarrow> xs. t \<notin> fst ` set (g @ [(x, {})])] = [t \<leftarrow> xs. t \<notin> fst ` set g]"
      using Cons.prems by (intro filter_cong) auto
    with False Cons show ?thesis by (simp add: add_standalone_def)
  qed
qed

lemma build_one_new:
  assumes "valid_order ord" "fold (add_query ord parse) qs ([], {}) = (g, S)" "finite S"
    "S - fst ` set g = {a}"
  shows "build_dependency_graph ord parse qs = g @ [(a, {})]"
proof -
  from assms(1,3) have d: "distinct (ord qs S)" and s: "set (ord qs S) = S"
    by (simp_all add: valid_order_def)
  have "distinct [t \<leftarrow> ord qs S. t \<notin> fst ` set g]" using d by simp
  moreover have "set [t \<leftarrow> ord qs S. t \<notin> fst ` set g] = {a}" using s assms(4) by auto
  ultimately have "[t \<leftarrow> ord qs S. t \<notin> fst ` set g] = [a]" by (rule distinct_singleton)
  then show ?thesis
    by (simp add: build_dependency_graph_def assms(2) fold_add_standalone[OF d])
qed

lemma build_no_new:
  assumes "valid_order ord" "fold (add_query ord parse) qs ([], {}) = (g, S)" "finite S"
    "S \<subseteq> fst ` set g"
  shows "build_dependency_graph ord parse qs = g"
proof -
  from assms(1,3) have d: "distinct (ord qs S)" and s: "set (ord qs S) = S"
    by (simp_all add: valid_order_def)
  have "[t \<leftarrow> ord qs S. t \<notin> fst ` set g] = []" using s assms(4) by (auto simp: filter_empty_conv)
  then show ?thesis
    by (simp add: build_dependency_graph_def assms(2) fold_add_standalone[OF d])
qed

lemma fold_union: "fold (\<lambda>d acc. acc \<union> f d) xs A = A \<union> \<Union> (f ` set xs)"
  by (induction xs arbitrary: A) auto

lemma analyze_regular_eq:
  "analyze_regular ord parse qs =
     Some (Inr \<lparr>table_creation_order = fst (sort_outcome (build_dependency_graph ord parse qs)),
       external_dependencies =
         fold (\<lambda>d acc. acc \<union> references d) (map (query_entry parse) qs) {}
           - fold (\<lambda>d acc. acc \<union> creates d) (map (query_entry parse) qs) {},
       query_details = map (query_entry parse) qs,
       total_queries = length qs,
       total_tables = card (fold (\<lambda>d acc. acc \<union> creates d) (map (query_entry parse) qs) {})
         + card (fold (\<lambda>d acc. acc \<union> references d) (map (query_entry parse) qs) {}
                  - fold (\<lambda>d acc. acc \<union> creates d) (map (query_entry parse) qs) {}),
       created_tables_key = None, note_key = None,
       logged = snd (sort_outcome (build_dependency_graph ord parse qs))\<rparr>)"
  by (simp add: analyze_regular_def analyze_queries_def topological_sort_eq Let_def split_def)

lemma analyze_large_batch_returns:
  "\<exists>r. analyze_large_batch ord parse qs = Some (Inr r)
     \<and> table_creation_order r
         = fst (sort_outcome (build_dependency_graph ord parse (critical_queries parse qs)))
     \<and> logged r = snd (sort_outcome (build_dependency_graph ord parse (critical_queries parse qs)))
     \<and> total_queries r = length qs"
  by (simp add: analyze_large_batch_def analyze_queries_def topological_sort_eq Let_def split_def)

lemma extract_single:
  "parse q = Some [Some e] \<Longrightarrow>
     extract_tables_from_query parse q =
       (created_tables (visit_expression e \<lparr>created_tables = {}, referenced_tables = {}, cte_tables = {}\<rparr>),
        referenced_tables (visit_expression e \<lparr>created_tables = {}, referenced_tables = {}, cte_tables = {}\<rparr>)
          - created_tables (visit_expression e \<lparr>created_tables = {}, referenced_tables = {}, cte_tables = {}\<rparr>))"
  by (simp add: extract_tables_from_query_def)

lemmas visit_eval =
  visit_expression_def kept_tables_eval qualified_name_def lower_def lower_char_def tbl_def Let_def

lemma analyze_batch_returns: "\<exists>r. analyze_batch ord parse render sql_batch = Some (Inr r)"
  using analyze_large_batch_returns[of ord parse "split_batch_queries parse render sql_batch"]
  by (auto simp: analyze_batch_def Let_def analyze_regular_eq)

text \<open>
  Statements that create nothing add no edge. When the statements other than CREATE create
  nothing and name no table beyond those of the critical statements, the critical statements
  give the same edges and the same tables as all statements.
\<close>

lemma fold_add_query:
  "fold (add_query ord parse) qs (g, T) =
     (fold (add_edges_of ord parse) qs g, T \<union> \<Union> (tables_of parse ` set qs))"
  by (induction qs arbitrary: g T)
     (auto simp: add_query_def add_edges_of_def tables_of_def split_def)

lemma add_edges_of_nothing:
  "valid_order ord \<Longrightarrow> fst (extract_tables_from_query parse q) = {} \<Longrightarrow>
     add_edges_of ord parse q g = g"
  by (simp add: add_edges_of_def valid_order_empty)

lemma fold_unchanged: "(\<And>x. x \<in> set xs \<Longrightarrow> f x g = g) \<Longrightarrow> fold f xs g = g"
  by (induction xs) auto

lemma fold_filter_unchanged:
  "(\<And>x g. x \<in> set xs \<Longrightarrow> \<not> P x \<Longrightarrow> f x g = g) \<Longrightarrow> fold f (filter P xs) g = fold f xs g"
  by (induction xs arbitrary: g) auto

lemma finite_tables: "finite (\<Union> (tables_of parse ` set qs))"
  using finite_extract by (auto simp: tables_of_def)

lemma build_eq:
  assumes "valid_order ord"
  shows "build_dependency_graph ord parse qs =
     fold (add_edges_of ord parse) qs [] @
       map (\<lambda>t. (t, {}))
         [t \<leftarrow> ord qs (\<Union> (tables_of parse ` set qs)).
            t \<notin> fst ` set (fold (add_edges_of ord parse) qs [])]"
proof -
  have "distinct (ord qs (\<Union> (tables_of parse ` set qs)))"
    using assms finite_tables[of parse qs] by (simp add: valid_order_def)
  then show ?thesis
    by (simp add: build_dependency_graph_def fold_add_query fold_add_standalone)
qed

lemma critical_same_parts:
  assumes v: "valid_order ord"
    and len: "length qs \<le> 1000"
    and oth: "list_all (\<lambda>q. is_create_statement q \<or>
        fst (extract_tables_from_query parse q) = {} \<and>
        (snd (extract_tables_from_query parse q) = {} \<or>
         snd (extract_tables_from_query parse q)
           \<inter> \<Union> ((\<lambda>c. fst (extract_tables_from_query parse c))
                 ` set (filter is_create_statement qs)) \<noteq> {})) qs"
  shows "fold (add_edges_of ord parse) (critical_queries parse qs) []
       = fold (add_edges_of ord parse) qs []"
    and "\<Union> (tables_of parse ` set (critical_queries parse qs)) = \<Union> (tables_of parse ` set qs)"
proof -
  let ?cs = "filter is_create_statement qs"
  let ?os = "filter (\<lambda>q. \<not> is_create_statement q) qs"
  let ?C = "\<Union> ((\<lambda>c. fst (extract_tables_from_query parse c)) ` set ?cs)"
  let ?crit = "[q \<leftarrow> ?os. snd (extract_tables_from_query parse q) \<inter> ?C \<noteq> {}]"
  have "length ?os \<le> 1000" using len by (meson le_trans length_filter_le)
  then have c: "critical_queries parse qs = ?cs @ ?crit"
    by (simp add: critical_queries_def Let_def fold_union)
  have none: "\<And>q. q \<in> set qs \<Longrightarrow> \<not> is_create_statement q \<Longrightarrow>
      fst (extract_tables_from_query parse q) = {}"
    using oth by (auto simp: list_all_iff)
  have refs: "\<And>q. q \<in> set qs \<Longrightarrow> \<not> is_create_statement q \<Longrightarrow>
      snd (extract_tables_from_query parse q) \<inter> ?C = {} \<Longrightarrow>
      snd (extract_tables_from_query parse q) = {}"
    using oth by (auto simp: list_all_iff)
  have "fold (add_edges_of ord parse) ?crit (fold (add_edges_of ord parse) ?cs [])
      = fold (add_edges_of ord parse) ?cs []"
    by (rule fold_unchanged) (auto simp: add_edges_of_nothing[OF v] none)
  moreover have "fold (add_edges_of ord parse) ?cs [] = fold (add_edges_of ord parse) qs []"
    by (rule fold_filter_unchanged) (auto simp: add_edges_of_nothing[OF v] none)
  ultimately show "fold (add_edges_of ord parse) (critical_queries parse qs) []
      = fold (add_edges_of ord parse) qs []" by (simp add: c)
  have "\<Union> (tables_of parse ` set (?cs @ ?crit)) = \<Union> (tables_of parse ` set qs)"
  proof
    show "\<Union> (tables_of parse ` set (?cs @ ?crit)) \<subseteq> \<Union> (tables_of parse ` set qs)" by auto
    show "\<Union> (tables_of parse ` set qs) \<subseteq> \<Union> (tables_of parse ` set (?cs @ ?crit))"
    proof
      fix x assume "x \<in> \<Union> (tables_of parse ` set qs)"
      then obtain q where q: "q \<in> set qs" "x \<in> tables_of parse q" by auto
      show "x \<in> \<Union> (tables_of parse ` set (?cs @ ?crit))"
      proof (cases "is_create_statement q")
        case True
        with q show ?thesis by auto
      next
        case False
        with q none[OF q(1)] have x: "x \<in> snd (extract_tables_from_query parse q)"
          by (simp add: tables_of_def)
        with refs[OF q(1) False]
        have "snd (extract_tables_from_query parse q) \<inter> ?C \<noteq> {}" by auto
        with q False have "q \<in> set ?crit" by simp
        with q(2) show ?thesis by auto
      qed
    qed
  qed
  then show "\<Union> (tables_of parse ` set (critical_queries parse qs)) = \<Union> (tables_of parse ` set qs)"
    by (simp only: c)
qed

text \<open>The keys that the statements add with their edges are the dependent tables.\<close>

lemma keys_update: "fst ` set (AList.update k v al) = insert k (fst ` set al)"
  by (induction al) auto

lemma keys_add_dependencies:
  "fst ` set (add_dependencies c refs g) = (if refs = {} then fst ` set g else insert c (fst ` set g))"
  by (auto simp: add_dependencies_def keys_update split: option.splits)

lemma keys_fold_add_dependencies:
  "fst ` set (fold (\<lambda>c. add_dependencies c refs) cs g)
     = (if refs = {} then fst ` set g else set cs \<union> fst ` set g)"
  by (induction cs arbitrary: g) (auto simp: keys_add_dependencies)

lemma keys_add_edges_of:
  assumes "valid_order ord"
  shows "fst ` set (add_edges_of ord parse q g)
     = (if snd (extract_tables_from_query parse q) = {} then {}
        else fst (extract_tables_from_query parse q)) \<union> fst ` set g"
proof -
  have "set (ord [q] (fst (extract_tables_from_query parse q))) = fst (extract_tables_from_query parse q)"
    using assms finite_extract[of parse q] by (simp add: valid_order_def)
  then show ?thesis by (simp add: add_edges_of_def keys_fold_add_dependencies)
qed

lemma keys_fold_add_edges_of:
  "valid_order ord \<Longrightarrow>
     fst ` set (fold (add_edges_of ord parse) qs g) = dependent_tables parse qs \<union> fst ` set g"
  by (induction qs arbitrary: g) (auto simp: keys_add_edges_of dependent_tables_def)

text \<open>
  The order that the sorter returns for a graph followed by standalone keys: the same tables,
  and the keys of the graph in an order that the standalone keys do not change.
\<close>

lemma order_split:
  "fst (sort_outcome g) = filter (unreferenced g) (map fst g) @ filter (\<lambda>n. \<not> unreferenced g n) (map fst g)"
proof (cases "length [node \<leftarrow> map fst g. unreferenced g node] = length g")
  case True
  then have e: "[node \<leftarrow> map fst g. unreferenced g node] = map fst g"
    by (intro filter_full_length) simp
  then have "filter (\<lambda>n. \<not> unreferenced g n) (map fst g) = []"
    by (metis (mono_tags, lifting) filter_False filter_id_conv)
  with True e show ?thesis by (simp add: sort_outcome_def)
next
  case False
  have "[x \<leftarrow> map fst g. x \<notin> set (filter (unreferenced g) (map fst g))]
      = [x \<leftarrow> map fst g. \<not> unreferenced g x]"
    by (rule filter_cong) auto
  with False show ?thesis by (simp add: sort_outcome_def Let_def)
qed

lemma mset_filter_both: "mset (filter P xs @ filter (\<lambda>x. \<not> P x) xs) = mset xs"
  by (induction xs) auto

lemma unreferenced_standalone:
  "unreferenced (g @ map (\<lambda>t. (t, {})) ts) = unreferenced g"
  by (auto simp: unreferenced_def fun_eq_iff list_all_iff)

lemma order_standalone:
  assumes "set ts \<inter> fst ` set g = {}"
  shows "mset (fst (sort_outcome (g @ map (\<lambda>t. (t, {})) ts))) = mset (map fst g) + mset ts"
    and "[t \<leftarrow> fst (sort_outcome (g @ map (\<lambda>t. (t, {})) ts)). t \<in> fst ` set g]
       = filter (unreferenced g) (map fst g) @ filter (\<lambda>n. \<not> unreferenced g n) (map fst g)"
proof -
  let ?g = "g @ map (\<lambda>t. (t, {})) ts"
  have k: "map fst ?g = map fst g @ ts" by (simp add: o_def)
  have "mset (fst (sort_outcome ?g)) = mset (map fst g @ ts)"
    unfolding order_split k by (rule mset_filter_both)
  then show "mset (fst (sort_outcome ?g)) = mset (map fst g) + mset ts" by simp
  have f1: "\<And>P. [t \<leftarrow> filter P (map fst g). t \<in> fst ` set g] = filter P (map fst g)"
    unfolding filter_filter by (rule filter_cong) auto
  have f2: "\<And>P. [t \<leftarrow> filter P ts. t \<in> fst ` set g] = []"
    using assms by (auto simp: filter_empty_conv)
  show "[t \<leftarrow> fst (sort_outcome ?g). t \<in> fst ` set g]
      = filter (unreferenced g) (map fst g) @ filter (\<lambda>n. \<not> unreferenced g n) (map fst g)"
    unfolding order_split k unreferenced_standalone filter_append f1 f2 by simp
qed

subsection \<open>Claims about the extractor\<close>

text \<open>
  C5. When the parser fails on a statement the extractor returns two empty sets; it has no
  exceptional outcome. The failure stays with that statement: the regular analysis of a batch
  that holds it returns a result whose details list every statement, the failing one with
  empty sets and the others with what the extractor finds for them; the large-batch analysis
  and \<open>analyze_batch\<close> return a result as well.
\<close>

theorem parse_failure_is_local:
  "parse q = None \<Longrightarrow>
     extract_tables_from_query parse q = ({}, {})
     \<and> (\<exists>r. analyze_regular ord parse (before @ q # after) = Some (Inr r)
           \<and> query_details r =
               map (query_entry parse) before @ [\<lparr>query = q, creates = {}, references = {}\<rparr>]
                 @ map (query_entry parse) after)
     \<and> (\<exists>r. analyze_large_batch ord parse (before @ q # after) = Some (Inr r))
     \<and> (\<exists>r. analyze_batch ord parse render sql_batch = Some (Inr r))"
proof (intro conjI)
  assume f: "parse q = None"
  then show e: "extract_tables_from_query parse q = ({}, {})"
    by (simp add: extract_tables_from_query_def)
  show "\<exists>r. analyze_regular ord parse (before @ q # after) = Some (Inr r)
      \<and> query_details r =
          map (query_entry parse) before @ [\<lparr>query = q, creates = {}, references = {}\<rparr>]
            @ map (query_entry parse) after"
    by (simp add: analyze_regular_eq query_entry_def e)
  show "\<exists>r. analyze_large_batch ord parse (before @ q # after) = Some (Inr r)"
    using analyze_large_batch_returns[of ord parse "before @ q # after"] by blast
  show "\<exists>r. analyze_batch ord parse render sql_batch = Some (Inr r)"
    by (rule analyze_batch_returns)
qed

theorem parse_failure_is_local_witness:
  "scenario_parse ''SELEC 1'' = None
   \<and> extract_tables_from_query scenario_parse ''SELEC 1'' = ({}, {})
   \<and> (\<exists>r. analyze_regular sorted_order scenario_parse [''SELEC 1'', ''SELECT * FROM x'']
             = Some (Inr r)
         \<and> query_details r =
             [\<lparr>query = ''SELEC 1'', creates = {}, references = {}\<rparr>,
              \<lparr>query = ''SELECT * FROM x'', creates = {}, references = {''x''}\<rparr>])"
proof -
  have f: "scenario_parse ''SELEC 1'' = None" by (simp add: scenario_parse_def)
  have x: "scenario_parse ''SELECT * FROM x'' = Some [Some select_from_x]"
    by (simp add: scenario_parse_def)
  have e: "query_entry scenario_parse ''SELECT * FROM x''
      = \<lparr>query = ''SELECT * FROM x'', creates = {}, references = {''x''}\<rparr>"
    unfolding query_entry_def
    by (subst extract_single[of scenario_parse "''SELECT * FROM x''", OF x])
       (simp add: select_from_x_def visit_eval)
  from parse_failure_is_local[where parse = scenario_parse and q = "''SELEC 1''"
      and ord = sorted_order and before = "[]" and after = "[''SELECT * FROM x'']"] f e
  show ?thesis by simp
qed

text \<open>
  C6, at the input of the claim. The extractor records the alias of a CTE only when the alias
  has a \<^verbatim>\<open>name\<close> attribute. The alias that the parser gives for the WITH statement is a plain
  string, so nothing is recorded, nothing is filtered, and the CTE name \<open>t\<close> stays among
  the referenced tables beside \<open>real_table\<close>.
\<close>

theorem cte_alias_is_kept:
  "extract_tables_from_query scenario_parse
     ''WITH t AS (SELECT 1) SELECT * FROM t, real_table'' = ({}, {''t'', ''real_table''})"
proof -
  have p: "scenario_parse ''WITH t AS (SELECT 1) SELECT * FROM t, real_table''
      = Some [Some with_t_plain]"
    by (simp add: scenario_parse_def)
  show ?thesis
    by (subst extract_single[of scenario_parse _ with_t_plain, OF p])
       (simp add: with_t_plain_def visit_eval insert_commute)
qed

text \<open>
  C7, at a failing input. The text \<open>CREATE TABLE a AS SELECT * FROM a; ;\<close> holds the
  statement and an empty one, for which the parser gives a missing expression. The loop
  visits the CREATE expression and raises at the missing one; the \<^verbatim>\<open>except\<close> clause skips the
  removal of the created tables and the extractor returns \<open>a\<close> as created and as
  referenced. The graph built from this text has the self-loop \<open>a: {a}\<close>. For the example
  of the claim, \<open>CREATE TABLE a AS SELECT * FROM a, b\<close>, the result is \<open>({a}, {b})\<close>.
\<close>

theorem created_table_stays_referenced:
  "extract_tables_from_query scenario_parse ''CREATE TABLE a AS SELECT * FROM a; ;''
     = ({''a''}, {''a''})
   \<and> build_dependency_graph sorted_order scenario_parse [''CREATE TABLE a AS SELECT * FROM a; ;'']
     = [(''a'', {''a''})]
   \<and> extract_tables_from_query scenario_parse ''CREATE TABLE a AS SELECT * FROM a, b''
     = ({''a''}, {''b''})"
proof (intro conjI)
  show e: "extract_tables_from_query scenario_parse ''CREATE TABLE a AS SELECT * FROM a; ;''
      = ({''a''}, {''a''})"
    by (simp add: extract_tables_from_query_def scenario_parse_def create_a_from_a_def visit_eval)
  have f: "fold (add_query sorted_order scenario_parse) [''CREATE TABLE a AS SELECT * FROM a; ;'']
      ([], {}) = ([(''a'', {''a''})], {''a''})"
    by (simp add: add_query_def e valid_order_single[OF valid_order_sorted] add_dependencies_def)
  show "build_dependency_graph sorted_order scenario_parse
      [''CREATE TABLE a AS SELECT * FROM a; ;''] = [(''a'', {''a''})]"
    by (rule build_no_new[OF valid_order_sorted f]) simp_all
  have p: "scenario_parse ''CREATE TABLE a AS SELECT * FROM a, b'' = Some [Some create_a_from_a_b]"
    by (simp add: scenario_parse_def)
  show "extract_tables_from_query scenario_parse ''CREATE TABLE a AS SELECT * FROM a, b''
      = ({''a''}, {''b''})"
    by (subst extract_single[of scenario_parse _ create_a_from_a_b, OF p])
       (simp add: create_a_from_a_b_def visit_eval)
qed

subsection \<open>Claims about the batch analysis\<close>

lemma parse_create_b: "scenario_parse ''CREATE TABLE b AS SELECT * FROM a'' = Some [Some create_b_from_a]"
  by (simp add: scenario_parse_def)

lemma parse_create_c: "scenario_parse ''CREATE TABLE c AS SELECT * FROM b'' = Some [Some create_c_from_b]"
  by (simp add: scenario_parse_def)

lemma parse_select_b: "scenario_parse ''SELECT * FROM b'' = Some [Some select_from_b]"
  by (simp add: scenario_parse_def)

lemma parse_select_x: "scenario_parse ''SELECT * FROM x'' = Some [Some select_from_x]"
  by (simp add: scenario_parse_def)

lemma extract_create_b:
  "extract_tables_from_query scenario_parse ''CREATE TABLE b AS SELECT * FROM a'' = ({''b''}, {''a''})"
  by (subst extract_single[of scenario_parse _ create_b_from_a, OF parse_create_b])
     (simp add: create_b_from_a_def visit_eval)

lemma extract_select_b:
  "extract_tables_from_query scenario_parse ''SELECT * FROM b'' = ({}, {''b''})"
  by (subst extract_single[of scenario_parse _ select_from_b, OF parse_select_b])
     (simp add: select_from_b_def visit_eval)

lemma extract_select_x:
  "extract_tables_from_query scenario_parse ''SELECT * FROM x'' = ({}, {''x''})"
  by (subst extract_single[of scenario_parse _ select_from_x, OF parse_select_x])
     (simp add: select_from_x_def visit_eval)

lemma is_create_create_b: "is_create_statement ''CREATE TABLE b AS SELECT * FROM a''"
  by (simp add: is_create_statement_def is_space_def lower_def lower_char_def char_of_eq_iff)

lemma is_create_select_b: "\<not> is_create_statement ''SELECT * FROM b''"
  by (simp add: is_create_statement_def is_space_def lower_def lower_char_def char_of_eq_iff)

lemma is_create_select_x: "\<not> is_create_statement ''SELECT * FROM x''"
  by (simp add: is_create_statement_def is_space_def lower_def lower_char_def char_of_eq_iff)

lemma graph_create_b:
  assumes v: "valid_order ord"
  shows "build_dependency_graph ord scenario_parse [''CREATE TABLE b AS SELECT * FROM a'']
    = [(''b'', {''a''}), (''a'', {})]"
proof -
  have f: "fold (add_query ord scenario_parse) [''CREATE TABLE b AS SELECT * FROM a''] ([], {})
      = ([(''b'', {''a''})], {''b'', ''a''})"
    by (auto simp: add_query_def extract_create_b valid_order_single[OF v] add_dependencies_def)
  have "build_dependency_graph ord scenario_parse [''CREATE TABLE b AS SELECT * FROM a'']
      = [(''b'', {''a''})] @ [(''a'', {})]"
    by (rule build_one_new[OF v f]) auto
  then show ?thesis by simp
qed

lemma graph_select_x:
  assumes v: "valid_order ord"
  shows "build_dependency_graph ord scenario_parse [''SELECT * FROM x''] = [(''x'', {})]"
proof -
  have f: "fold (add_query ord scenario_parse) [''SELECT * FROM x''] ([], {}) = ([], {''x''})"
    by (auto simp: add_query_def extract_select_x valid_order_empty[OF v])
  have "build_dependency_graph ord scenario_parse [''SELECT * FROM x''] = [] @ [(''x'', {})]"
    by (rule build_one_new[OF v f]) auto
  then show ?thesis by simp
qed

lemma graph_no_query:
  assumes v: "valid_order ord"
  shows "build_dependency_graph ord parse [] = []"
  by (simp add: build_dependency_graph_def valid_order_empty[OF v])

text \<open>
  C2, at the input of the claim. For every parser that reads the batch as the two CREATE
  statements and reads each of them again from its rendering, and for every iteration order
  of sets, \<open>analyze_batch\<close> returns the order \<open>c, b, a\<close> and logs a cycle warning:
  \<open>a\<close> comes after \<open>b\<close> and \<open>b\<close> after \<open>c\<close>. The external dependencies are \<open>{a}\<close>
  and \<open>total_tables\<close> is 3, as the claim says.
\<close>

theorem analyze_batch_chain_reversed:
  assumes v: "valid_order ord"
    and p: "parse ''CREATE TABLE b AS SELECT * FROM a; CREATE TABLE c AS SELECT * FROM b;''
           = Some [Some create_b_from_a, Some create_c_from_b]"
    and p1: "parse (render create_b_from_a) = Some [Some create_b_from_a]"
    and p2: "parse (render create_c_from_b) = Some [Some create_c_from_b]"
  shows "analyze_batch ord parse render
      ''CREATE TABLE b AS SELECT * FROM a; CREATE TABLE c AS SELECT * FROM b;'' =
    Some (Inr \<lparr>table_creation_order = [''c'', ''b'', ''a''],
      external_dependencies = {''a''},
      query_details =
        [\<lparr>query = render create_b_from_a, creates = {''b''}, references = {''a''}\<rparr>,
         \<lparr>query = render create_c_from_b, creates = {''c''}, references = {''b''}\<rparr>],
      total_queries = 2, total_tables = 3, created_tables_key = None, note_key = None,
      logged = [''Circular dependencies detected in SQL queries'', ''Tables in cycles: b, a'']\<rparr>)"
proof -
  let ?q1 = "render create_b_from_a" and ?q2 = "render create_c_from_b"
  have s: "split_batch_queries parse render
      ''CREATE TABLE b AS SELECT * FROM a; CREATE TABLE c AS SELECT * FROM b;'' = [?q1, ?q2]"
    by (simp add: split_batch_queries_def p)
  have e1: "extract_tables_from_query parse ?q1 = ({''b''}, {''a''})"
    by (subst extract_single[of parse "render create_b_from_a", OF p1])
       (simp add: create_b_from_a_def visit_eval)
  have e2: "extract_tables_from_query parse ?q2 = ({''c''}, {''b''})"
    by (subst extract_single[of parse "render create_c_from_b", OF p2])
       (simp add: create_c_from_b_def visit_eval)
  have f: "fold (add_query ord parse) [?q1, ?q2] ([], {})
      = ([(''b'', {''a''}), (''c'', {''b''})], {''b'', ''a'', ''c''})"
    by (auto simp: add_query_def e1 e2 valid_order_single[OF v] add_dependencies_def)
  have g: "build_dependency_graph ord parse [?q1, ?q2]
      = [(''b'', {''a''}), (''c'', {''b''})] @ [(''a'', {})]"
    by (rule build_one_new[OF v f]) auto
  show ?thesis
    by (simp add: analyze_batch_def s analyze_regular_eq g sort_outcome_def unreferenced_def
        query_entry_def e1 e2)
qed

theorem analyze_batch_chain_reversed_witness:
  "analyze_batch sorted_order scenario_parse scenario_render
      ''CREATE TABLE b AS SELECT * FROM a; CREATE TABLE c AS SELECT * FROM b;'' =
    Some (Inr \<lparr>table_creation_order = [''c'', ''b'', ''a''],
      external_dependencies = {''a''},
      query_details =
        [\<lparr>query = ''CREATE TABLE b AS SELECT * FROM a'', creates = {''b''}, references = {''a''}\<rparr>,
         \<lparr>query = ''CREATE TABLE c AS SELECT * FROM b'', creates = {''c''}, references = {''b''}\<rparr>],
      total_queries = 2, total_tables = 3, created_tables_key = None, note_key = None,
      logged = [''Circular dependencies detected in SQL queries'', ''Tables in cycles: b, a'']\<rparr>)"
proof -
  have r1: "scenario_render create_b_from_a = ''CREATE TABLE b AS SELECT * FROM a''"
    by (simp add: scenario_render_def)
  have r2: "scenario_render create_c_from_b = ''CREATE TABLE c AS SELECT * FROM b''"
    by (simp add: scenario_render_def create_b_from_a_def create_c_from_b_def tbl_def)
  have p: "scenario_parse ''CREATE TABLE b AS SELECT * FROM a; CREATE TABLE c AS SELECT * FROM b;''
      = Some [Some create_b_from_a, Some create_c_from_b]"
    by (simp add: scenario_parse_def)
  from analyze_batch_chain_reversed[OF valid_order_sorted, of scenario_parse scenario_render]
    p parse_create_b parse_create_c r1 r2
  show ?thesis by simp
qed

text \<open>
  C3, as the claim states it, fails on both counts. For the single statement
  \<open>CREATE TABLE b AS SELECT * FROM a\<close> the large-batch path reports no external dependency
  and the regular path reports \<open>a\<close>: the large-batch path collects references from the
  statements other than CREATE only. For the single statement \<open>SELECT * FROM x\<close> the
  large-batch path returns an empty order and the regular path the order \<open>[x]\<close>: the
  large-batch path builds its graph from the CREATE statements and the statements that
  reference a created table.
\<close>

theorem large_batch_differs_from_regular:
  "analyze_large_batch sorted_order scenario_parse [''CREATE TABLE b AS SELECT * FROM a''] =
     Some (Inr \<lparr>table_creation_order = [''b'', ''a''],
       external_dependencies = {},
       query_details =
         [\<lparr>query = ''CREATE TABLE b AS SELECT * FROM a'', creates = {''b''}, references = {''a''}\<rparr>],
       total_queries = 1, total_tables = 1, created_tables_key = Some 1,
       note_key = Some (''Large batch optimization applied: detailed query analysis ''
         @ ''limited to CREATE statements and critical dependencies.''),
       logged = [''Circular dependencies detected in SQL queries'', ''Tables in cycles: a'']\<rparr>)
   \<and> analyze_regular sorted_order scenario_parse [''CREATE TABLE b AS SELECT * FROM a''] =
     Some (Inr \<lparr>table_creation_order = [''b'', ''a''],
       external_dependencies = {''a''},
       query_details =
         [\<lparr>query = ''CREATE TABLE b AS SELECT * FROM a'', creates = {''b''}, references = {''a''}\<rparr>],
       total_queries = 1, total_tables = 2, created_tables_key = None, note_key = None,
       logged = [''Circular dependencies detected in SQL queries'', ''Tables in cycles: a'']\<rparr>)
   \<and> analyze_large_batch sorted_order scenario_parse [''SELECT * FROM x''] =
     Some (Inr \<lparr>table_creation_order = [],
       external_dependencies = {''x''},
       query_details = [\<lparr>query = ''SELECT * FROM x'', creates = {}, references = {''x''}\<rparr>],
       total_queries = 1, total_tables = 1, created_tables_key = Some 0,
       note_key = Some (''Large batch optimization applied: detailed query analysis ''
         @ ''limited to CREATE statements and critical dependencies.''),
       logged = []\<rparr>)
   \<and> analyze_regular sorted_order scenario_parse [''SELECT * FROM x''] =
     Some (Inr \<lparr>table_creation_order = [''x''],
       external_dependencies = {''x''},
       query_details = [\<lparr>query = ''SELECT * FROM x'', creates = {}, references = {''x''}\<rparr>],
       total_queries = 1, total_tables = 1, created_tables_key = None, note_key = None,
       logged = []\<rparr>)"
proof (intro conjI)
  note v = valid_order_sorted
  have c1: "critical_queries scenario_parse [''CREATE TABLE b AS SELECT * FROM a'']
      = [''CREATE TABLE b AS SELECT * FROM a'']"
    by (simp add: critical_queries_def is_create_create_b)
  have c2: "critical_queries scenario_parse [''SELECT * FROM x''] = []"
    by (simp add: critical_queries_def is_create_select_x)
  show "analyze_large_batch sorted_order scenario_parse [''CREATE TABLE b AS SELECT * FROM a'']
      = Some (Inr \<lparr>table_creation_order = [''b'', ''a''],
       external_dependencies = {},
       query_details =
         [\<lparr>query = ''CREATE TABLE b AS SELECT * FROM a'', creates = {''b''}, references = {''a''}\<rparr>],
       total_queries = 1, total_tables = 1, created_tables_key = Some 1,
       note_key = Some (''Large batch optimization applied: detailed query analysis ''
         @ ''limited to CREATE statements and critical dependencies.''),
       logged = [''Circular dependencies detected in SQL queries'', ''Tables in cycles: a'']\<rparr>)"
    by (simp add: analyze_large_batch_def Let_def analyze_queries_def topological_sort_eq c1
        graph_create_b[OF v] is_create_create_b query_entry_def extract_create_b
        sort_outcome_def unreferenced_def)
  show "analyze_regular sorted_order scenario_parse [''CREATE TABLE b AS SELECT * FROM a'']
      = Some (Inr \<lparr>table_creation_order = [''b'', ''a''],
       external_dependencies = {''a''},
       query_details =
         [\<lparr>query = ''CREATE TABLE b AS SELECT * FROM a'', creates = {''b''}, references = {''a''}\<rparr>],
       total_queries = 1, total_tables = 2, created_tables_key = None, note_key = None,
       logged = [''Circular dependencies detected in SQL queries'', ''Tables in cycles: a'']\<rparr>)"
    by (simp add: analyze_regular_eq graph_create_b[OF v] query_entry_def extract_create_b
        sort_outcome_def unreferenced_def)
  show "analyze_large_batch sorted_order scenario_parse [''SELECT * FROM x'']
      = Some (Inr \<lparr>table_creation_order = [],
       external_dependencies = {''x''},
       query_details = [\<lparr>query = ''SELECT * FROM x'', creates = {}, references = {''x''}\<rparr>],
       total_queries = 1, total_tables = 1, created_tables_key = Some 0,
       note_key = Some (''Large batch optimization applied: detailed query analysis ''
         @ ''limited to CREATE statements and critical dependencies.''),
       logged = []\<rparr>)"
    by (simp add: analyze_large_batch_def Let_def analyze_queries_def topological_sort_eq c2
        graph_no_query[OF v] is_create_select_x query_entry_def extract_select_x
        sort_outcome_def unreferenced_def)
  show "analyze_regular sorted_order scenario_parse [''SELECT * FROM x'']
      = Some (Inr \<lparr>table_creation_order = [''x''],
       external_dependencies = {''x''},
       query_details = [\<lparr>query = ''SELECT * FROM x'', creates = {}, references = {''x''}\<rparr>],
       total_queries = 1, total_tables = 1, created_tables_key = None, note_key = None,
       logged = []\<rparr>)"
    by (simp add: analyze_regular_eq graph_select_x[OF v] query_entry_def extract_select_x
        sort_outcome_def unreferenced_def)
qed

text \<open>
  C3, amended: for every batch of at most 1000 statements in which every statement that does
  not start with CREATE creates no table and references either no table or a table that a
  CREATE statement of the batch creates, and for every iteration order of sets, the
  large-batch path and the regular path both return a result, and the two
  \<open>table_creation_order\<close> lists hold the same tables, each as often; the dependent tables
  stand in the same relative order in both lists. The other tables are keyed in the order
  in which the set of all tables is iterated, which the two paths build from different lists
  of statements. \<open>total_queries\<close> is the same.
\<close>

theorem large_batch_order_up_to_iteration:
  assumes "valid_order ord"
    and "length qs \<le> 1000"
    and "list_all (\<lambda>q. is_create_statement q \<or>
        fst (extract_tables_from_query parse q) = {} \<and>
        (snd (extract_tables_from_query parse q) = {} \<or>
         snd (extract_tables_from_query parse q)
           \<inter> \<Union> ((\<lambda>c. fst (extract_tables_from_query parse c))
                 ` set (filter is_create_statement qs)) \<noteq> {})) qs"
  shows "\<exists>r r'. analyze_large_batch ord parse qs = Some (Inr r)
     \<and> analyze_regular ord parse qs = Some (Inr r')
     \<and> mset (table_creation_order r) = mset (table_creation_order r')
     \<and> [t \<leftarrow> table_creation_order r. t \<in> dependent_tables parse qs]
         = [t \<leftarrow> table_creation_order r'. t \<in> dependent_tables parse qs]
     \<and> total_queries r = total_queries r'"
proof -
  let ?crit = "critical_queries parse qs"
  let ?g = "fold (add_edges_of ord parse) qs []"
  let ?S = "\<Union> (tables_of parse ` set qs)"
  let ?s = "\<lambda>h. [t \<leftarrow> ord h ?S. t \<notin> fst ` set ?g]"
  note parts = critical_same_parts[OF assms]
  have k: "fst ` set ?g = dependent_tables parse qs"
    using keys_fold_add_edges_of[OF assms(1), of parse qs "[]"] by simp
  have b: "build_dependency_graph ord parse qs = ?g @ map (\<lambda>t. (t, {})) (?s qs)"
    by (rule build_eq[OF assms(1)])
  have b': "build_dependency_graph ord parse ?crit = ?g @ map (\<lambda>t. (t, {})) (?s ?crit)"
    using build_eq[OF assms(1), of parse ?crit] by (simp only: parts)
  have d: "\<And>h. distinct (?s h) \<and> set (?s h) = ?S - fst ` set ?g"
    using assms(1) finite_tables[of parse qs] by (auto simp: valid_order_def)
  have m: "mset (?s ?crit) = mset (?s qs)"
  proof -
    have "set (?s ?crit) = set (?s qs)" using d[of ?crit] d[of qs] by (simp only:)
    moreover have "distinct (?s ?crit)" "distinct (?s qs)" using d by blast+
    ultimately show ?thesis by (simp only: set_eq_iff_mset_eq_distinct)
  qed
  have i: "\<And>h. set (?s h) \<inter> fst ` set ?g = {}" using d by auto
  have 1: "mset (fst (sort_outcome (build_dependency_graph ord parse ?crit)))
      = mset (fst (sort_outcome (build_dependency_graph ord parse qs)))"
    unfolding b b' order_standalone(1)[OF i] m ..
  have 2: "[t \<leftarrow> fst (sort_outcome (build_dependency_graph ord parse ?crit)). t \<in> fst ` set ?g]
      = [t \<leftarrow> fst (sort_outcome (build_dependency_graph ord parse qs)). t \<in> fst ` set ?g]"
    unfolding b b' order_standalone(2)[OF i] ..
  from analyze_large_batch_returns[of ord parse qs]
  obtain r where r: "analyze_large_batch ord parse qs = Some (Inr r)"
    "table_creation_order r = fst (sort_outcome (build_dependency_graph ord parse ?crit))"
    "total_queries r = length qs"
    by blast
  obtain r' where r': "analyze_regular ord parse qs = Some (Inr r')"
    "table_creation_order r' = fst (sort_outcome (build_dependency_graph ord parse qs))"
    "total_queries r' = length qs"
    by (simp add: analyze_regular_eq)
  show ?thesis
    apply (rule exI[of _ r], rule exI[of _ r'])
    using r r' 1 2 by (simp only: k simp_thms)
qed


theorem large_batch_order_up_to_iteration_witness:
  "valid_order sorted_order
   \<and> \<not> is_create_statement ''SELECT * FROM b''
   \<and> is_create_statement ''CREATE TABLE b AS SELECT * FROM a''
   \<and> extract_tables_from_query scenario_parse ''SELECT * FROM b'' = ({}, {''b''})
   \<and> extract_tables_from_query scenario_parse ''CREATE TABLE b AS SELECT * FROM a'' = ({''b''}, {''a''})
   \<and> (\<exists>r r'. analyze_large_batch sorted_order scenario_parse
                [''SELECT * FROM b'', ''CREATE TABLE b AS SELECT * FROM a''] = Some (Inr r)
         \<and> analyze_regular sorted_order scenario_parse
                [''SELECT * FROM b'', ''CREATE TABLE b AS SELECT * FROM a''] = Some (Inr r')
         \<and> mset (table_creation_order r) = mset (table_creation_order r')
         \<and> [t \<leftarrow> table_creation_order r. t \<in> dependent_tables scenario_parse
                [''SELECT * FROM b'', ''CREATE TABLE b AS SELECT * FROM a'']]
             = [t \<leftarrow> table_creation_order r'. t \<in> dependent_tables scenario_parse
                [''SELECT * FROM b'', ''CREATE TABLE b AS SELECT * FROM a'']]
         \<and> total_queries r = total_queries r')"
proof -
  have h: "list_all (\<lambda>q. is_create_statement q \<or>
        fst (extract_tables_from_query scenario_parse q) = {} \<and>
        (snd (extract_tables_from_query scenario_parse q) = {} \<or>
         snd (extract_tables_from_query scenario_parse q)
           \<inter> \<Union> ((\<lambda>c. fst (extract_tables_from_query scenario_parse c))
                 ` set (filter is_create_statement
                     [''SELECT * FROM b'', ''CREATE TABLE b AS SELECT * FROM a''])) \<noteq> {}))
      [''SELECT * FROM b'', ''CREATE TABLE b AS SELECT * FROM a'']"
    by (simp add: is_create_select_b is_create_create_b extract_select_b extract_create_b)
  have l: "length [''SELECT * FROM b'', ''CREATE TABLE b AS SELECT * FROM a''] \<le> 1000"
    by simp
  from large_batch_order_up_to_iteration[OF valid_order_sorted l h]
    valid_order_sorted is_create_select_b is_create_create_b extract_select_b extract_create_b
  show ?thesis by blast
qed

end
